theory Spec2Isabelle
  imports Main "HOL-Library.Word"
begin

unbundle bit_operations_syntax

section \<open>Bytes and machine integers\<close>

text \<open>
  Go's \<open>byte\<close> is an 8-bit word and \<open>uint32\<close> a 32-bit word.  Go's \<open>int\<close> (64 bits on
  every supported platform) is modelled as \<open>int\<close>: every \<open>int\<close> of the modelled code is a
  slice length or a small offset from one, so it cannot leave the 64-bit range.  The
  conversion \<open>uint32(len(x))\<close> is \<open>of_nat\<close> into \<open>32 word\<close>, which truncates as Go does,
  and \<open>int(binary.BigEndian.Uint32(b))\<close> is \<open>uint\<close>.  \<open>time.Duration\<close> is an \<open>int64\<close>;
  it is modelled as \<open>int\<close> with the wrap-around of its one multiplication written out.
\<close>

type_synonym byte = "8 word"

text \<open>\<open>binary.BigEndian.PutUint32\<close>: the four bytes of \<open>v\<close>, most significant first.\<close>

definition PutUint32 :: "32 word \<Rightarrow> byte list" where
  "PutUint32 v = [ucast (drop_bit 24 v), ucast (drop_bit 16 v), ucast (drop_bit 8 v), ucast v]"

text \<open>
  \<open>binary.BigEndian.Uint32\<close> reads the first four bytes of its argument.  On a shorter
  slice Go panics; every call site of the sources checks the length first, so the last
  equation is never reached from them.
\<close>

fun Uint32 :: "byte list \<Rightarrow> 32 word" where
  "Uint32 (b0 # b1 # b2 # b3 # rest) =
     (ucast b3 OR push_bit 8 (ucast b2) OR push_bit 16 (ucast b1) OR push_bit 24 (ucast b0))"
| "Uint32 _ = 0"

definition wrap64 :: "int \<Rightarrow> int" where
  "wrap64 x = (x + 2 ^ 63) mod 2 ^ 64 - 2 ^ 63"

section \<open>Frame codec (frame.go)\<close>

definition FrameHeaderSize :: int where
  "FrameHeaderSize = 4 + 1"

definition MsgTypeData :: byte where "MsgTypeData = 0"
definition MsgTypePing :: byte where "MsgTypePing = 1"
definition MsgTypeFin :: byte where "MsgTypeFin = 2"
definition MsgTypeRotate :: byte where "MsgTypeRotate = 3"

record Frame =
  Payload :: "byte list"
  Length :: "32 word"
  Type :: byte

text \<open>
  \<open>BuildFrame(writeBuf, f)\<close>: \<open>Grow\<close> only reserves capacity; then the length of the payload
  as \<open>uint32\<close>, the type byte and the payload are written to the end of the buffer.  The
  buffer is passed in and the new buffer returned.
\<close>

definition BuildFrame :: "byte list \<Rightarrow> Frame \<Rightarrow> byte list" where
  "BuildFrame writeBuf f =
     (let lenBuf = PutUint32 (of_nat (length (Payload f)));
          b1 = writeBuf @ lenBuf;
          b2 = b1 @ [Type f]
      in b2 @ Payload f)"

text \<open>The composite literal \<open>Frame{Type: t, Payload: p}\<close>; \<open>Length\<close> takes its zero value.\<close>

definition mkFrame :: "byte \<Rightarrow> byte list \<Rightarrow> Frame" where
  "mkFrame t p = \<lparr>Payload = p, Length = 0, Type = t\<rparr>"

section \<open>Adaptive poller\<close>

type_synonym Duration = int

record AdaptivePoll =
  Cur :: Duration
  Fast :: Duration
  Steady :: Duration
  skip :: bool

definition Millisecond :: Duration where
  "Millisecond = 1000000"

definition DefaultFastPoll :: Duration where
  "DefaultFastPoll = 10 * Millisecond"

definition NewAdaptivePoll :: "Duration \<Rightarrow> Duration \<Rightarrow> AdaptivePoll" where
  "NewAdaptivePoll fast steady =
     (let fast1 = (if fast \<le> 0 then DefaultFastPoll else fast);
          steady1 = (if steady < fast1 then fast1 else steady)
      in \<lparr>Cur = fast1, Fast = fast1, Steady = steady1, skip = False\<rparr>)"

text \<open>
  \<open>Sleep\<close> returns the duration handed to \<open>time.Sleep\<close> (\<open>None\<close> when the call returns at
  once because \<open>skip\<close> was set) and the poller afterwards.  \<open>p.Cur *= 2\<close> is an \<open>int64\<close>
  multiplication.
\<close>

definition Sleep :: "AdaptivePoll \<Rightarrow> Duration option \<times> AdaptivePoll" where
  "Sleep p =
     (if skip p then (None, p\<lparr>skip := False\<rparr>)
      else (Some (Cur p),
            if Cur p < Steady p then
              (let p1 = p\<lparr>Cur := wrap64 (Cur p * 2)\<rparr>
               in if Cur p1 > Steady p1 then p1\<lparr>Cur := Steady p1\<rparr> else p1)
            else p))"

definition Reset :: "AdaptivePoll \<Rightarrow> AdaptivePoll" where
  "Reset p = p\<lparr>Cur := Fast p, skip := True\<rparr>"

text \<open>The outcomes of \<open>n\<close> successive calls of \<open>Sleep\<close>, and the intervals really slept.\<close>

fun sleep_n :: "nat \<Rightarrow> AdaptivePoll \<Rightarrow> Duration option list" where
  "sleep_n 0 p = []"
| "sleep_n (Suc n) p = fst (Sleep p) # sleep_n n (snd (Sleep p))"

fun intervals :: "Duration option list \<Rightarrow> Duration list" where
  "intervals [] = []"
| "intervals (None # xs) = intervals xs"
| "intervals (Some d # xs) = d # intervals xs"

text \<open>
  The invariant of the specification, together with the two side conditions under which
  the code keeps it: a positive fast interval (what \<open>NewAdaptivePoll\<close> establishes) and a
  steady interval whose double still fits an \<open>int64\<close>.
\<close>

definition poll_inv :: "AdaptivePoll \<Rightarrow> bool" where
  "poll_inv p = (Fast p \<le> Cur p \<and> Cur p \<le> Steady p)"

definition poll_ok :: "AdaptivePoll \<Rightarrow> bool" where
  "poll_ok p = (0 < Fast p \<and> poll_inv p \<and> Steady p \<le> 2 ^ 62)"

section \<open>Errors and outcomes\<close>

text \<open>
  The error values the modelled code returns or compares with.  \<open>ErrCipher\<close> stands for
  the errors of the Noise library and \<open>ErrDriver\<close> for the I/O errors of a storage
  driver; the core only passes them on.
\<close>

datatype error =
    ErrShortBuffer
  | EOF
  | ErrClosed
  | ErrClosedPipe
  | ErrDeadlineExceeded
  | ErrNoData
  | Canceled
  | ErrCipher nat
  | ErrDriver nat

section \<open>Noise session (crypto.go)\<close>

definition NoiseOverhead :: int where
  "NoiseOverhead = 4 + 16"

text \<open>
  The cipher states come from the Noise library, which is not part of the repository.
  Their two operations are parameters of the model: each takes a cipher state and the
  input bytes and returns the output bytes or an error, together with the cipher state
  afterwards (the nonce is implicit in it).
\<close>

record 'cs CipherOps =
  Encrypt :: "'cs \<Rightarrow> byte list \<Rightarrow> (error + byte list) \<times> 'cs"
  Decrypt :: "'cs \<Rightarrow> byte list \<Rightarrow> (error + byte list) \<times> 'cs"

text \<open>
  The struct \<open>Noise\<close>.  \<open>cs1\<close> and \<open>cs2\<close> are nil until the handshake completes.  The
  handshake state \<open>hs\<close> is used by \<open>WriteMessage\<close> and \<open>ReadMessage\<close> only and is left out.
\<close>

record 'cs Noise =
  cs1 :: "'cs option"
  cs2 :: "'cs option"
  isComplete :: bool
  isInitiator :: bool

text \<open>
  A result of a function that may also panic.  Calling \<open>Encrypt\<close> or \<open>Decrypt\<close> through
  a nil cipher state is a nil-pointer dereference.
\<close>

datatype 'a run = Done 'a | Panics | Loops | Pending

definition EncryptData ::
  "'cs CipherOps \<Rightarrow> 'cs Noise \<Rightarrow> byte list \<Rightarrow> ((error + byte list) \<times> 'cs Noise) run" where
  "EncryptData A nh plaintext =
     (if isInitiator nh then
        (case cs1 nh of
           None \<Rightarrow> Panics
         | Some s \<Rightarrow> (case Encrypt A s plaintext of (r, s') \<Rightarrow> Done (r, nh\<lparr>cs1 := Some s'\<rparr>)))
      else
        (case cs2 nh of
           None \<Rightarrow> Panics
         | Some s \<Rightarrow> (case Encrypt A s plaintext of (r, s') \<Rightarrow> Done (r, nh\<lparr>cs2 := Some s'\<rparr>))))"

definition DecryptData ::
  "'cs CipherOps \<Rightarrow> 'cs Noise \<Rightarrow> byte list \<Rightarrow> ((error + byte list) \<times> 'cs Noise) run" where
  "DecryptData A nh ciphertext =
     (if isInitiator nh then
        (case cs2 nh of
           None \<Rightarrow> Panics
         | Some s \<Rightarrow> (case Decrypt A s ciphertext of (r, s') \<Rightarrow> Done (r, nh\<lparr>cs2 := Some s'\<rparr>)))
      else
        (case cs1 nh of
           None \<Rightarrow> Panics
         | Some s \<Rightarrow> (case Decrypt A s ciphertext of (r, s') \<Rightarrow> Done (r, nh\<lparr>cs1 := Some s'\<rparr>))))"

text \<open>
  \<open>SealData(dst, plaintext)\<close>.  \<open>dst\<close> only lends its capacity: the function makes room
  for \<open>4 + len(plaintext) + 16\<close> bytes, lets the cipher append the ciphertext behind the
  first four bytes and writes \<open>uint32(len(ciphertext))\<close> into them.  The result is the
  prefix followed by the ciphertext.
\<close>

definition SealData ::
  "'cs CipherOps \<Rightarrow> 'cs Noise \<Rightarrow> byte list \<Rightarrow> ((error + byte list) \<times> 'cs Noise) run" where
  "SealData A nh plaintext =
     (case EncryptData A nh plaintext of
        Done (Inl err, nh') \<Rightarrow> Done (Inl err, nh')
      | Done (Inr ciphertext, nh') \<Rightarrow>
          Done (Inr (PutUint32 (of_nat (length ciphertext)) @ ciphertext), nh')
      | Panics \<Rightarrow> Panics
      | Loops \<Rightarrow> Loops
      | Pending \<Rightarrow> Pending)"

text \<open>
  \<open>UnsealData(dst, data)\<close> returns \<open>(plaintext, remaining, err)\<close>; a nil slice or error is
  \<open>None\<close>.  The Noise session afterwards is returned as well.
\<close>

type_synonym unsealed = "byte list option \<times> byte list option \<times> error option"

definition UnsealData ::
  "'cs CipherOps \<Rightarrow> 'cs Noise \<Rightarrow> byte list \<Rightarrow> (unsealed \<times> 'cs Noise) run" where
  "UnsealData A nh data =
     (if length data < 4 then Done ((None, Some data, Some ErrShortBuffer), nh)
      else
        (let len = unat (Uint32 (take 4 data)) in
         if length data < 4 + len then Done ((None, Some data, Some ErrShortBuffer), nh)
         else
           (case DecryptData A nh (take len (drop 4 data)) of
              Done (Inl err, nh') \<Rightarrow> Done ((None, None, Some err), nh')
            | Done (Inr decrypted, nh') \<Rightarrow>
                Done ((Some decrypted, Some (drop (4 + len) data), None), nh')
            | Panics \<Rightarrow> Panics
            | Loops \<Rightarrow> Loops
            | Pending \<Rightarrow> Pending)))"

text \<open>
  The cipher state a session sends with and the one it receives with: the initiator
  sends with \<open>cs1\<close> and receives with \<open>cs2\<close>, the responder the other way round.
\<close>

definition send_cs :: "'cs Noise \<Rightarrow> 'cs option" where
  "send_cs nh = (if isInitiator nh then cs1 nh else cs2 nh)"

definition recv_cs :: "'cs Noise \<Rightarrow> 'cs option" where
  "recv_cs nh = (if isInitiator nh then cs2 nh else cs1 nh)"

text \<open>
  The contract of the cipher that the core relies on, for a relation \<open>R\<close> between a
  sending cipher state and the peer's receiving one (same key, same nonce): encryption
  succeeds and adds the 16-byte tag, the peer decrypts the ciphertext to the plaintext,
  and the two states stay related.
\<close>

definition aead_sync :: "'cs CipherOps \<Rightarrow> ('cs \<Rightarrow> 'cs \<Rightarrow> bool) \<Rightarrow> bool" where
  "aead_sync A R =
     (\<forall>s r p. R s r \<longrightarrow>
        (\<exists>ct s' r'. Encrypt A s p = (Inr ct, s') \<and> length ct = length p + 16
                   \<and> Decrypt A r ct = (Inr p, r') \<and> R s' r'))"

text \<open>An established session pair, seen from sender \<open>a\<close> to receiver \<open>b\<close>.\<close>

definition session_pair ::
  "('cs \<Rightarrow> 'cs \<Rightarrow> bool) \<Rightarrow> 'cs Noise \<Rightarrow> 'cs Noise \<Rightarrow> bool" where
  "session_pair R a b =
     (isComplete a \<and> isComplete b \<and> isInitiator a \<noteq> isInitiator b
      \<and> (\<exists>s r. send_cs a = Some s \<and> recv_cs b = Some r \<and> R s r))"

text \<open>
  A stand-in cipher for concrete runs of the model: the state is the nonce, encryption
  adds the nonce to every byte and appends sixteen tag bytes holding the nonce.
\<close>

definition tag_of :: "nat \<Rightarrow> byte list" where
  "tag_of n = replicate 16 (of_nat n)"

definition demo_Encrypt :: "nat \<Rightarrow> byte list \<Rightarrow> (error + byte list) \<times> nat" where
  "demo_Encrypt n p = (Inr (map (\<lambda>b. b + of_nat n) p @ tag_of n), Suc n)"

definition demo_Decrypt :: "nat \<Rightarrow> byte list \<Rightarrow> (error + byte list) \<times> nat" where
  "demo_Decrypt n ct =
     (if length ct < 16 \<or> drop (length ct - 16) ct \<noteq> tag_of n then (Inl (ErrCipher 0), n)
      else (Inr (map (\<lambda>b. b - of_nat n) (take (length ct - 16) ct)), Suc n))"

definition demo_cipher :: "nat CipherOps" where
  "demo_cipher = \<lparr>Encrypt = demo_Encrypt, Decrypt = demo_Decrypt\<rparr>"

definition demo_initiator :: "nat Noise" where
  "demo_initiator = \<lparr>cs1 = Some 0, cs2 = Some 0, isComplete = True, isInitiator = True\<rparr>"

definition demo_responder :: "nat Noise" where
  "demo_responder = \<lparr>cs1 = Some 0, cs2 = Some 0, isComplete = True, isInitiator = False\<rparr>"

definition run_bind :: "'a run \<Rightarrow> ('a \<Rightarrow> 'b run) \<Rightarrow> 'b run" where
  "run_bind m f = (case m of Done x \<Rightarrow> f x | Panics \<Rightarrow> Panics | Loops \<Rightarrow> Loops | Pending \<Rightarrow> Pending)"

section \<open>Raw transport (the driver contract of aznet.go)\<close>

text \<open>
  A \<open>Transport\<close> is an interface implemented by the storage drivers.  The model fixes
  what a transport answers by scripts: the outcomes of the calls of \<open>WriteRaw\<close>,
  \<open>ReadRaw\<close>, \<open>ShouldRotate\<close> and \<open>RotateTX\<close> still to come, in call order.  A call made
  when its script is used up has no modelled answer; the run is then \<open>Pending\<close>.  For
  \<open>ReadRaw\<close> this is the reader that polls a resource on which nothing more arrives.
  \<open>WriteRaw_log\<close> records the bytes of every \<open>WriteRaw\<close> call with its outcome.

  \<open>ReadRaw\<close> answers with an error or with a stream; reading the stream to its end
  yields bytes and possibly a read error.
\<close>

datatype raw_read = RawErr error | RawStream "byte list" "error option"

record Rotator =
  ShouldRotate_script :: "bool list"
  RotateTX_script :: "error option list"
  RotateRX_calls :: nat

record Transport =
  MaxRawSize :: int
  WriteRaw_script :: "error option list"
  WriteRaw_log :: "(byte list \<times> error option) list"
  ReadRaw_script :: "raw_read list"
  rotator :: "Rotator option"
  Close_result :: "error option"
  Close_calls :: nat

definition WriteRaw :: "Transport \<Rightarrow> byte list \<Rightarrow> (error option \<times> Transport) run" where
  "WriteRaw t data =
     (case WriteRaw_script t of
        [] \<Rightarrow> Pending
      | r # rs \<Rightarrow> Done (r, t\<lparr>WriteRaw_script := rs, WriteRaw_log := WriteRaw_log t @ [(data, r)]\<rparr>))"

definition ReadRaw :: "Transport \<Rightarrow> (raw_read \<times> Transport) run" where
  "ReadRaw t =
     (case ReadRaw_script t of
        [] \<Rightarrow> Pending
      | r # rs \<Rightarrow> Done (r, t\<lparr>ReadRaw_script := rs\<rparr>))"

definition ShouldRotate :: "Rotator \<Rightarrow> (bool \<times> Rotator) run" where
  "ShouldRotate r =
     (case ShouldRotate_script r of
        [] \<Rightarrow> Pending
      | b # bs \<Rightarrow> Done (b, r\<lparr>ShouldRotate_script := bs\<rparr>))"

definition RotateTX :: "Rotator \<Rightarrow> (error option \<times> Rotator) run" where
  "RotateTX r =
     (case RotateTX_script r of
        [] \<Rightarrow> Pending
      | e # es \<Rightarrow> Done (e, r\<lparr>RotateTX_script := es\<rparr>))"

text \<open>The core discards the error of \<open>RotateRX\<close>.\<close>

definition RotateRX :: "Rotator \<Rightarrow> Rotator" where
  "RotateRX r = r\<lparr>RotateRX_calls := Suc (RotateRX_calls r)\<rparr>"

definition TransportClose :: "Transport \<Rightarrow> error option \<times> Transport" where
  "TransportClose t = (Close_result t, t\<lparr>Close_calls := Suc (Close_calls t)\<rparr>)"

section \<open>Connection engine (aznet.go)\<close>

text \<open>
  The struct \<open>Conn\<close>.  The three \<open>bytes.Buffer\<close>s are byte lists (the unread part of
  each); the scratch slices \<open>Enc\<close> and \<open>Dec\<close> only lend capacity and are left out, as are
  the mutexes: the model runs one method at a time.  Atomic flags are booleans and the
  two \<open>sync.Once\<close> are booleans telling whether they have fired.  A deadline is a nil
  pointer (\<open>None\<close>) or a time in Unix nanoseconds; \<open>zeroTime\<close> is the zero \<open>time.Time\<close>.
  \<open>hasDriver\<close> is \<open>c.driver != nil\<close>; \<open>tokenDeletes\<close> counts the \<open>DeleteToken\<close> goroutines
  started, and \<open>cancelled\<close> tells whether \<open>c.cancel()\<close> was called.  The field \<open>rotator\<close>
  of \<open>Conn\<close> is the transport itself when it implements \<open>Rotator\<close>, so it is read from
  the transport.
\<close>

record 'cs Conn =
  transport :: Transport
  bufRead :: "byte list"
  bufWrite :: "byte list"
  bufNoise :: "byte list"
  noise :: "'cs Noise"
  poll :: AdaptivePoll
  readDeadline :: "int option"
  writeDeadline :: "int option"
  connID :: string
  hasDriver :: bool
  tokenDeletes :: nat
  cancelled :: bool
  lastActive :: int
  peerLastSeen :: int
  cleanupToken :: bool
  closeOnce :: bool
  closed :: bool
  closedRead :: bool
  closedWrite :: bool
  mtu :: int
  readRemain :: int

definition zeroTime :: int where
  "zeroTime = - 62135596800 * 1000000000"

text \<open>\<open>deadline != nil && !deadline.IsZero() && time.Now().After(*deadline)\<close>\<close>

definition deadline_passed :: "int option \<Rightarrow> int \<Rightarrow> bool" where
  "deadline_passed deadline now =
     (case deadline of None \<Rightarrow> False | Some t \<Rightarrow> t \<noteq> zeroTime \<and> now > t)"

text \<open>
  \<open>newConn\<close>, with the two poll intervals of the configuration; the buffers come from the
  pool, where they are kept empty.  The keep-alive goroutine is not part of the model.
\<close>

definition newConn ::
  "int \<Rightarrow> Transport \<Rightarrow> Duration \<Rightarrow> Duration \<Rightarrow> 'cs Noise \<Rightarrow> bool \<Rightarrow> string \<Rightarrow> 'cs Conn" where
  "newConn now t fastPoll dataPoll nh drv cid =
     \<lparr>transport = t, bufRead = [], bufWrite = [], bufNoise = [], noise = nh,
      poll = NewAdaptivePoll fastPoll dataPoll,
      readDeadline = None, writeDeadline = None, connID = cid, hasDriver = drv,
      tokenDeletes = 0, cancelled = False, lastActive = now, peerLastSeen = now,
      cleanupToken = False, closeOnce = False,
      closed = False, closedRead = False, closedWrite = False,
      mtu = MaxRawSize t - NoiseOverhead - FrameHeaderSize, readRemain = 0\<rparr>"

text \<open>
  \<open>bytes.Buffer.Next(n)\<close> for \<open>n \<ge> 0\<close>: the next \<open>n\<close> bytes (fewer when the buffer is
  shorter) and the buffer behind them.  For \<open>n < 0\<close> Go panics; the one call whose
  argument can be negative is in \<open>flush\<close>, where the model has that branch.
\<close>

definition Next :: "byte list \<Rightarrow> int \<Rightarrow> byte list \<times> byte list" where
  "Next buf n = (take (nat n) buf, drop (nat n) buf)"

subsection \<open>flush\<close>

datatype 'cs fstep = FStop "error option" "'cs Conn" | FCont "'cs Conn"

text \<open>The rotation branch of the loop in \<open>flush\<close>, entered with the rotator \<open>r\<close>.\<close>

definition flush_rotate :: "'cs CipherOps \<Rightarrow> 'cs Conn \<Rightarrow> 'cs fstep run" where
  "flush_rotate A c =
     (let rBuf = BuildFrame [] (mkFrame MsgTypeRotate []) in
      run_bind (SealData A (noise c) rBuf) (\<lambda>(res, nh).
        let c1 = c\<lparr>noise := nh\<rparr> in
        case res of
          Inl err \<Rightarrow> Done (FStop (Some err) c1)
        | Inr sealed \<Rightarrow>
            run_bind (WriteRaw (transport c1) sealed) (\<lambda>(werr, t).
              let c2 = c1\<lparr>transport := t\<rparr> in
              case werr of
                Some err \<Rightarrow> Done (FStop (Some err) c2)
              | None \<Rightarrow>
                  (case rotator t of
                     None \<Rightarrow> Panics
                   | Some r \<Rightarrow>
                       run_bind (RotateTX r) (\<lambda>(rerr, r').
                         let c3 = c2\<lparr>transport := t\<lparr>rotator := Some r'\<rparr>\<rparr> in
                         case rerr of
                           Some err \<Rightarrow> Done (FStop (Some err) c3)
                         | None \<Rightarrow> Done (FCont c3))))))"

text \<open>The data branch: drain up to \<open>maxChunk\<close> bytes, seal them, write them.\<close>

definition flush_data :: "'cs CipherOps \<Rightarrow> int \<Rightarrow> int \<Rightarrow> 'cs Conn \<Rightarrow> 'cs fstep run" where
  "flush_data A now maxChunk c =
     (let takeLen = min (int (length (bufWrite c))) maxChunk in
      if takeLen < 0 then Panics
      else
        (case Next (bufWrite c) takeLen of (plaintext, wb) \<Rightarrow>
           let c1 = c\<lparr>bufWrite := wb\<rparr> in
           run_bind (SealData A (noise c1) plaintext) (\<lambda>(res, nh).
             let c2 = c1\<lparr>noise := nh\<rparr> in
             case res of
               Inl err \<Rightarrow> Done (FStop (Some err) c2)
             | Inr sealed \<Rightarrow>
                 run_bind (WriteRaw (transport c2) sealed) (\<lambda>(werr, t).
                   let c3 = c2\<lparr>transport := t\<rparr> in
                   case werr of
                     Some err \<Rightarrow> Done (FStop (Some err) c3)
                   | None \<Rightarrow> Done (FCont (c3\<lparr>lastActive := now\<rparr>))))))"

text \<open>One iteration of the loop in \<open>flush\<close>.\<close>

definition flush_step :: "'cs CipherOps \<Rightarrow> int \<Rightarrow> 'cs Conn \<Rightarrow> 'cs fstep run" where
  "flush_step A now c =
     (let maxChunk = MaxRawSize (transport c) - NoiseOverhead in
      if length (bufWrite c) = 0 then Done (FStop None c)
      else
        (case rotator (transport c) of
           None \<Rightarrow> flush_data A now maxChunk c
         | Some r \<Rightarrow>
             run_bind (ShouldRotate r) (\<lambda>(b, r').
               let c1 = c\<lparr>transport := (transport c)\<lparr>rotator := Some r'\<rparr>\<rparr> in
               if b then flush_rotate A c1 else flush_data A now maxChunk c1)))"

function flush :: "'cs CipherOps \<Rightarrow> int \<Rightarrow> 'cs Conn \<Rightarrow> (error option \<times> 'cs Conn) run" where
  "flush A now c =
     (case flush_step A now c of
        Done (FCont c') \<Rightarrow> flush A now c'
      | Done (FStop err c') \<Rightarrow> Done (err, c')
      | Panics \<Rightarrow> Panics
      | Loops \<Rightarrow> Loops
      | Pending \<Rightarrow> Pending)"
  by pat_completeness auto
termination
proof (relation "measure (\<lambda>(A, now, c). length (WriteRaw_script (transport c)))")
  show "wf (measure (\<lambda>(A, now, c). length (WriteRaw_script (transport c))))" by simp
next
  fix A :: "'cs CipherOps" and now :: int and c c' :: "'cs Conn" and x
  assume "flush_step A now c = Done x" "x = FCont c'"
  then have "flush_step A now c = Done (FCont c')" by simp
  then have "length (WriteRaw_script (transport c')) < length (WriteRaw_script (transport c))"
    by (auto simp: flush_step_def flush_rotate_def flush_data_def run_bind_def Let_def
        WriteRaw_def ShouldRotate_def RotateTX_def Next_def
        split: if_splits option.splits run.splits prod.splits sum.splits list.splits)
  then show "((A, now, c'), (A, now, c)) \<in> measure (\<lambda>(A, now, c). length (WriteRaw_script (transport c)))"
    by simp
qed

declare flush.simps [simp del]

subsection \<open>Write, CloseWrite, Close\<close>

text \<open>
  The framing loop of \<open>Write\<close>, on the write buffer.  With \<open>mtu < 0\<close> the slice
  expression \<open>p[:chunkSize]\<close> panics; with \<open>mtu = 0\<close> every iteration appends an empty
  frame and leaves \<open>p\<close> as it is, so the loop does not end.
\<close>

function Write_loop :: "int \<Rightarrow> byte list \<Rightarrow> byte list \<Rightarrow> byte list run" where
  "Write_loop m wbuf p =
     (if length p > 0 then
        (let chunkSize = min (int (length p)) m in
         if chunkSize < 0 then Panics
         else if chunkSize = 0 then Loops
         else Write_loop m (BuildFrame wbuf (mkFrame MsgTypeData (take (nat chunkSize) p)))
                (drop (nat chunkSize) p))
      else Done wbuf)"
  by pat_completeness auto
termination
  by (relation "measure (\<lambda>(m, wbuf, p). length p)") auto

declare Write_loop.simps [simp del]

text \<open>\<open>Write\<close> returns \<open>(n, err)\<close> and the connection afterwards.\<close>

definition Write ::
  "'cs CipherOps \<Rightarrow> int \<Rightarrow> 'cs Conn \<Rightarrow> byte list \<Rightarrow> ((int \<times> error option) \<times> 'cs Conn) run" where
  "Write A now c p =
     (if closed c \<or> closedWrite c then Done ((0, Some ErrClosedPipe), c)
      else if deadline_passed (writeDeadline c) now then Done ((0, Some ErrDeadlineExceeded), c)
      else
        (let total = int (length p) in
         run_bind (Write_loop (mtu c) (bufWrite c) p) (\<lambda>wb.
           run_bind (flush A now (c\<lparr>bufWrite := wb\<rparr>)) (\<lambda>(err, c').
             case err of
               Some e \<Rightarrow> Done ((0, Some e), c')
             | None \<Rightarrow> Done ((total, None), c')))))"

text \<open>
  \<open>CloseWrite\<close>: \<open>closed == 1 || closedWrite.Swap(1) == 1\<close> returns nil; the swap is
  not reached on a closed connection.
\<close>

definition CloseWrite ::
  "'cs CipherOps \<Rightarrow> int \<Rightarrow> 'cs Conn \<Rightarrow> (error option \<times> 'cs Conn) run" where
  "CloseWrite A now c =
     (if closed c then Done (None, c)
      else if closedWrite c then Done (None, c)
      else flush A now
             (c\<lparr>closedWrite := True, bufWrite := BuildFrame (bufWrite c) (mkFrame MsgTypeFin [])\<rparr>))"

text \<open>
  \<open>Close\<close>: the body runs once.  The errors of both flushes are dropped; the buffers are
  reset and returned to the pool.
\<close>

definition Close :: "'cs CipherOps \<Rightarrow> int \<Rightarrow> 'cs Conn \<Rightarrow> (error option \<times> 'cs Conn) run" where
  "Close A now c =
     (if closeOnce c then Done (None, c)
      else
        run_bind (flush A now (c\<lparr>closeOnce := True, closed := True\<rparr>)) (\<lambda>(e1, c1).
          let c2 = (if \<not> closedWrite c1
                    then c1\<lparr>bufWrite := BuildFrame (bufWrite c1) (mkFrame MsgTypeFin [])\<rparr>
                    else c1)
          in run_bind (flush A now c2) (\<lambda>(e2, c3).
               case TransportClose (transport c3) of (err, t) \<Rightarrow>
                 Done (err, c3\<lparr>transport := t, cancelled := True,
                              bufRead := [], bufWrite := [], bufNoise := []\<rparr>))))"

subsection \<open>Read\<close>

text \<open>
  The decrypt loop of \<open>Read\<close>: unseal chunks from the Noise buffer into the read buffer
  until \<open>UnsealData\<close> reports a short buffer (result \<open>None\<close>) or fails (the error).
  \<open>cleanupToken.Do\<close> fires on the first chunk.
\<close>

definition cleanupToken_Do :: "'cs Conn \<Rightarrow> 'cs Conn" where
  "cleanupToken_Do c =
     (if cleanupToken c then c
      else (let c1 = c\<lparr>cleanupToken := True\<rparr> in
            if \<not> isInitiator (noise c1) \<and> hasDriver c1
            then c1\<lparr>tokenDeletes := Suc (tokenDeletes c1)\<rparr> else c1))"

datatype 'cs ustep = UStop "error option" "'cs Conn" | UCont "'cs Conn"

definition unseal_step :: "'cs CipherOps \<Rightarrow> 'cs Conn \<Rightarrow> 'cs ustep run" where
  "unseal_step A c =
     run_bind (UnsealData A (noise c) (bufNoise c)) (\<lambda>((decrypted, rest, err), nh).
       let c1 = c\<lparr>noise := nh\<rparr> in
       case err of
         Some e \<Rightarrow> if e \<noteq> ErrShortBuffer then Done (UStop (Some e) c1) else Done (UStop None c1)
       | None \<Rightarrow>
           (let c2 = cleanupToken_Do c1;
                c3 = c2\<lparr>bufRead := bufRead c2 @ (case decrypted of None \<Rightarrow> [] | Some d \<Rightarrow> d)\<rparr>;
                used = int (length (bufNoise c3))
                       - int (length (case rest of None \<Rightarrow> [] | Some r \<Rightarrow> r))
            in Done (UCont (c3\<lparr>bufNoise := snd (Next (bufNoise c3) used)\<rparr>))))"

lemma len_sub_uint:
  "(0::int) < a \<Longrightarrow> a + uint (w :: 32 word) \<le> int n \<Longrightarrow> n - nat (a + uint w) < n"
proof -
  assume a: "0 < a" "a + uint w \<le> int n"
  have "0 \<le> uint w" by simp
  with a show ?thesis by arith
qed

lemma UnsealData_Done:
  assumes "UnsealData A nh data = Done ((d, r, e), nh')"
  shows "(e = Some ErrShortBuffer \<and> d = None \<and> r = Some data \<and> nh' = nh)
       \<or> (\<exists>err. e = Some err \<and> d = None \<and> r = None)
       \<or> (e = None \<and> (\<exists>p. d = Some p)
           \<and> r = Some (drop (4 + unat (Uint32 (take 4 data))) data)
           \<and> \<not> length data < 4 + unat (Uint32 (take 4 data)))"
proof (cases "length data < 4 \<or> length data < 4 + unat (Uint32 (take 4 data))")
  case True
  then have "UnsealData A nh data = Done ((None, Some data, Some ErrShortBuffer), nh)"
    by (auto simp: UnsealData_def Let_def)
  with assms show ?thesis by simp
next
  case False
  let ?len = "unat (Uint32 (take 4 data))"
  from False have u: "UnsealData A nh data =
      (case DecryptData A nh (take ?len (drop 4 data)) of
         Done (Inl err, nh') \<Rightarrow> Done ((None, None, Some err), nh')
       | Done (Inr decrypted, nh') \<Rightarrow> Done ((Some decrypted, Some (drop (4 + ?len) data), None), nh')
       | Panics \<Rightarrow> Panics | Loops \<Rightarrow> Loops | Pending \<Rightarrow> Pending)"
    by (simp add: UnsealData_def Let_def)
  show ?thesis
  proof (cases "DecryptData A nh (take ?len (drop 4 data))")
    case (Done x)
    obtain res n2 where x: "x = (res, n2)" by (cases x)
    show ?thesis
    proof (cases res)
      case (Inl err)
      with assms u Done x show ?thesis by auto
    next
      case (Inr dec)
      with assms u Done x False show ?thesis by auto
    qed
  qed (use assms u in simp_all)
qed

lemma unseal_step_eq:
  assumes "UnsealData A (noise c) (bufNoise c) = Done ((d, r, e), nh)"
  shows "unseal_step A c =
     (case e of
        Some er \<Rightarrow> if er \<noteq> ErrShortBuffer then Done (UStop (Some er) (c\<lparr>noise := nh\<rparr>))
                   else Done (UStop None (c\<lparr>noise := nh\<rparr>))
      | None \<Rightarrow>
          Done (UCont ((cleanupToken_Do (c\<lparr>noise := nh\<rparr>))
            \<lparr>bufRead := bufRead c @ (case d of None \<Rightarrow> [] | Some x \<Rightarrow> x),
             bufNoise := drop (nat (int (length (bufNoise c))
                               - int (length (case r of None \<Rightarrow> [] | Some x \<Rightarrow> x))))
                           (bufNoise c)\<rparr>)))"
proof -
  have k: "bufRead (cleanupToken_Do (c\<lparr>noise := nh\<rparr>)) = bufRead c"
          "bufNoise (cleanupToken_Do (c\<lparr>noise := nh\<rparr>)) = bufNoise c"
    by (simp_all add: cleanupToken_Do_def Let_def)
  show ?thesis
    by (simp add: unseal_step_def run_bind_def assms Let_def Next_def k split: option.splits)
qed

lemma cleanupToken_Do_fields:
  "transport (cleanupToken_Do c) = transport c"
  "bufRead (cleanupToken_Do c) = bufRead c"
  "bufNoise (cleanupToken_Do c) = bufNoise c"
  "readRemain (cleanupToken_Do c) = readRemain c"
  "closed (cleanupToken_Do c) = closed c"
  "closedRead (cleanupToken_Do c) = closedRead c"
  "noise (cleanupToken_Do c) = noise c"
  by (simp_all add: cleanupToken_Do_def Let_def)

lemma unseal_step_Done_ex:
  assumes "unseal_step A c = Done st"
  shows "\<exists>d r e nh. UnsealData A (noise c) (bufNoise c) = Done ((d, r, e), nh)"
proof (cases "UnsealData A (noise c) (bufNoise c)")
  case (Done x)
  then show ?thesis by (cases x) auto
qed (use assms in \<open>simp_all add: unseal_step_def run_bind_def\<close>)

lemma unseal_step_UCont:
  assumes "unseal_step A c = Done (UCont c')"
  shows "length (bufNoise c') < length (bufNoise c) \<and> transport c' = transport c
   \<and> length (bufRead c) \<le> length (bufRead c')"
proof -
  from unseal_step_Done_ex [OF assms] obtain d r e nh where
    u: "UnsealData A (noise c) (bufNoise c) = Done ((d, r, e), nh)" by blast
  from assms unseal_step_eq [OF u] have e: "e = None"
    by (cases e) (simp_all split: if_splits)
  let ?k = "4 + unat (Uint32 (take 4 (bufNoise c)))"
  from UnsealData_Done [OF u] e have r: "r = Some (drop ?k (bufNoise c))"
    and l: "\<not> length (bufNoise c) < ?k" by auto
  have nk: "nat (4 + uint (Uint32 (take 4 (bufNoise c)))) = ?k"
    by (simp add: nat_add_distrib)
  from assms unseal_step_eq [OF u] e r l
  have c': "c' = (cleanupToken_Do (c\<lparr>noise := nh\<rparr>))
            \<lparr>bufRead := bufRead c @ (case d of None \<Rightarrow> [] | Some x \<Rightarrow> x),
             bufNoise := drop ?k (bufNoise c)\<rparr>"
    by (simp add: nk)
  show ?thesis using l by (simp add: c' cleanupToken_Do_fields)
qed

lemma unseal_step_UStop:
  assumes "unseal_step A c = Done (UStop e c')"
  shows "transport c' = transport c \<and> bufRead c' = bufRead c"
proof -
  from unseal_step_Done_ex [OF assms] obtain d r e0 nh where
    u: "UnsealData A (noise c) (bufNoise c) = Done ((d, r, e0), nh)" by blast
  from assms unseal_step_eq [OF u] have "c' = c\<lparr>noise := nh\<rparr>"
    by (cases e0) (simp_all split: if_splits)
  then show ?thesis by simp
qed

function unseal_loop :: "'cs CipherOps \<Rightarrow> 'cs Conn \<Rightarrow> (error option \<times> 'cs Conn) run" where
  "unseal_loop A c =
     (case unseal_step A c of
        Done (UCont c') \<Rightarrow> unseal_loop A c'
      | Done (UStop err c') \<Rightarrow> Done (err, c')
      | Panics \<Rightarrow> Panics
      | Loops \<Rightarrow> Loops
      | Pending \<Rightarrow> Pending)"
  by pat_completeness auto
termination
  by (relation "measure (\<lambda>(A, c). length (bufNoise c))") (auto dest: unseal_step_UCont)

declare unseal_loop.simps [simp del]

lemma unseal_loop_transport:
  "unseal_loop A c = Done (e, c') \<Longrightarrow>
   transport c' = transport c \<and> length (bufRead c) \<le> length (bufRead c')"
proof (induction A c rule: unseal_loop.induct)
  case (1 A c)
  show ?case
  proof (cases "unseal_step A c")
    case (Done st)
    show ?thesis
    proof (cases st)
      case (UStop err c1)
      with Done "1.prems" have "c' = c1" by (simp add: unseal_loop.simps [of A c])
      with unseal_step_UStop [of A c err c1] Done UStop show ?thesis by simp
    next
      case (UCont c1)
      with Done "1.prems" have "unseal_loop A c1 = Done (e, c')"
        by (simp add: unseal_loop.simps [of A c])
      with "1.IH" [OF Done UCont] unseal_step_UCont [of A c c1] Done UCont
      show ?thesis by simp
    qed
  qed (use "1.prems" in \<open>simp_all add: unseal_loop.simps [of A c]\<close>)
qed

datatype 'cs rstep = RStop "byte list" "error option" "'cs Conn" | RCont int "'cs Conn"

text \<open>
  The dispatch on a complete frame at the head of the read buffer.  \<open>n\<close> is \<open>len(p)\<close>; the
  bytes copied into \<open>p\<close> are returned in place of their number.
\<close>

definition Read_frame :: "int \<Rightarrow> 'cs Conn \<Rightarrow> nat \<Rightarrow> byte \<Rightarrow> int \<Rightarrow> 'cs rstep" where
  "Read_frame now c n fType fLen =
     (let c1 = c\<lparr>peerLastSeen := now\<rparr> in
      if fType = MsgTypeData then
        (let rb = snd (Next (bufRead c1) FrameHeaderSize);
             (chunk, rb') = Next rb (min fLen (int n));
             copied = take n chunk
         in RStop copied None (c1\<lparr>bufRead := rb', readRemain := fLen - int (length copied)\<rparr>))
      else if fType = MsgTypePing then
        RCont now (c1\<lparr>bufRead := snd (Next (bufRead c1) (FrameHeaderSize + fLen))\<rparr>)
      else if fType = MsgTypeFin then
        RStop [] (Some EOF)
          (c1\<lparr>bufRead := snd (Next (bufRead c1) (FrameHeaderSize + fLen)), closedRead := True\<rparr>)
      else if fType = MsgTypeRotate then
        (let c2 = c1\<lparr>bufRead := snd (Next (bufRead c1) (FrameHeaderSize + fLen))\<rparr>
         in RCont now
              (case rotator (transport c2) of
                 None \<Rightarrow> c2
               | Some r \<Rightarrow> c2\<lparr>transport := (transport c2)\<lparr>rotator := Some (RotateRX r)\<rparr>\<rparr>))
      else RCont now (c1\<lparr>bufRead := snd (Next (bufRead c1) (FrameHeaderSize + fLen))\<rparr>))"

text \<open>
  Fetching from the transport when no complete frame is buffered.  \<open>time.Sleep\<close> is the
  only thing that lets time pass in the model.
\<close>

definition Read_fetch :: "'cs CipherOps \<Rightarrow> int \<Rightarrow> 'cs Conn \<Rightarrow> 'cs rstep run" where
  "Read_fetch A now c =
     run_bind (ReadRaw (transport c)) (\<lambda>(res, t).
       let c1 = c\<lparr>transport := t\<rparr> in
       case res of
         RawErr err \<Rightarrow>
           if err = ErrNoData then
             (case Sleep (poll c1) of (slept, pl) \<Rightarrow>
                Done (RCont (now + (case slept of None \<Rightarrow> 0 | Some d \<Rightarrow> max 0 d)) (c1\<lparr>poll := pl\<rparr>)))
           else if err = Canceled \<and> closed c1 then Done (RStop [] (Some ErrClosed) c1)
           else Done (RStop [] (Some err) c1)
       | RawStream bytes serr \<Rightarrow>
           (let c2 = c1\<lparr>bufNoise := bufNoise c1 @ bytes\<rparr> in
            if serr \<noteq> None \<and> serr \<noteq> Some EOF then Done (RStop [] serr c2)
            else
              run_bind (unseal_loop A c2) (\<lambda>(uerr, c3).
                case uerr of
                  Some e \<Rightarrow> Done (RStop [] (Some e) c3)
                | None \<Rightarrow> Done (RCont now (c3\<lparr>poll := Reset (poll c3)\<rparr>)))))"

text \<open>One iteration of the loop in \<open>Read\<close>.\<close>

definition Read_step :: "'cs CipherOps \<Rightarrow> int \<Rightarrow> 'cs Conn \<Rightarrow> nat \<Rightarrow> 'cs rstep run" where
  "Read_step A now c n =
     (if closed c then Done (RStop [] (Some ErrClosed) c)
      else if closedRead c then Done (RStop [] (Some EOF) c)
      else if deadline_passed (readDeadline c) now then Done (RStop [] (Some ErrDeadlineExceeded) c)
      else if readRemain c > 0 then
        (case Next (bufRead c) (min (readRemain c) (int n)) of (chunk, rb) \<Rightarrow>
           let copied = take n chunk
           in Done (RStop copied None
                (c\<lparr>bufRead := rb, readRemain := readRemain c - int (length copied)\<rparr>)))
      else if int (length (bufRead c)) \<ge> FrameHeaderSize
              \<and> int (length (bufRead c))
                  \<ge> FrameHeaderSize + uint (Uint32 (take 4 (take 5 (bufRead c))))
      then Done (Read_frame now c n (take 5 (bufRead c) ! 4)
                   (uint (Uint32 (take 4 (take 5 (bufRead c))))))
      else Read_fetch A now c)"

text \<open>The connection a step of \<open>Read\<close> ends with.\<close>

fun rstep_conn :: "'cs rstep \<Rightarrow> 'cs Conn" where
  "rstep_conn (RStop bytes err c) = c"
| "rstep_conn (RCont now c) = c"

lemma Read_fetch_script:
  assumes "Read_fetch A now c = Done st"
  shows "\<exists>r. ReadRaw_script (transport c) = r # ReadRaw_script (transport (rstep_conn st))"
proof (cases "ReadRaw_script (transport c)")
  case Nil
  with assms show ?thesis by (simp add: Read_fetch_def ReadRaw_def run_bind_def)
next
  case (Cons r rs)
  let ?t = "(transport c)\<lparr>ReadRaw_script := rs\<rparr>"
  let ?c1 = "c\<lparr>transport := ?t\<rparr>"
  have rr: "ReadRaw (transport c) = Done (r, ?t)" by (simp add: ReadRaw_def Cons)
  have "transport (rstep_conn st) = ?t"
  proof (cases r)
    case (RawErr err)
    with assms rr show ?thesis
      by (auto simp: Read_fetch_def run_bind_def Let_def split: if_splits prod.splits)
  next
    case (RawStream bytes serr)
    let ?c2 = "?c1\<lparr>bufNoise := bufNoise ?c1 @ bytes\<rparr>"
    show ?thesis
    proof (cases "serr \<noteq> None \<and> serr \<noteq> Some EOF")
      case True
      with assms rr RawStream show ?thesis
        by (auto simp: Read_fetch_def run_bind_def Let_def)
    next
      case False
      with assms rr RawStream obtain uerr c3 where
        u: "unseal_loop A ?c2 = Done (uerr, c3)" and
        st: "st = (case uerr of Some e \<Rightarrow> RStop [] (Some e) c3
                   | None \<Rightarrow> RCont now (c3\<lparr>poll := Reset (poll c3)\<rparr>))"
        by (auto simp: Read_fetch_def run_bind_def Let_def split: run.splits option.splits)
      from unseal_loop_transport [OF u] have "transport c3 = ?t" by simp
      with st show ?thesis by (cases uerr) simp_all
    qed
  qed
  with Cons show ?thesis by simp
qed

lemma Read_step_RCont:
  "Read_step A now c n = Done (RCont now' c') \<Longrightarrow>
   length (ReadRaw_script (transport c')) < length (ReadRaw_script (transport c))
   \<or> (length (ReadRaw_script (transport c')) = length (ReadRaw_script (transport c))
      \<and> length (bufRead c') < length (bufRead c))"
proof -
  assume a: "Read_step A now c n = Done (RCont now' c')"
  show ?thesis
  proof (cases "int (length (bufRead c)) \<ge> FrameHeaderSize
              \<and> int (length (bufRead c))
                  \<ge> FrameHeaderSize + uint (Uint32 (take 4 (take 5 (bufRead c))))")
    case True
    let ?L = "uint (Uint32 (take 4 (take 5 (bufRead c))))"
    have d: "length (drop (nat (FrameHeaderSize + ?L)) (bufRead c)) < length (bufRead c)"
      using True len_sub_uint [of 5 "Uint32 (take 4 (take 5 (bufRead c)))" "length (bufRead c)"]
      by (simp add: FrameHeaderSize_def)
    from a True have "bufRead c' = drop (nat (FrameHeaderSize + ?L)) (bufRead c)
        \<and> ReadRaw_script (transport c') = ReadRaw_script (transport c)"
      by (auto simp: Read_step_def Read_frame_def Let_def Next_def
          split: if_splits prod.splits option.splits)
    with d show ?thesis by simp
  next
    case False
    with a have f: "Read_fetch A now c = Done (RCont now' c')"
      by (auto simp: Read_step_def Let_def Next_def split: if_splits)
    from Read_fetch_script [OF f] show ?thesis by auto
  qed
qed

function Read ::
  "'cs CipherOps \<Rightarrow> int \<Rightarrow> 'cs Conn \<Rightarrow> nat \<Rightarrow> ((byte list \<times> error option) \<times> 'cs Conn) run" where
  "Read A now c n =
     (case Read_step A now c n of
        Done (RCont now' c') \<Rightarrow> Read A now' c' n
      | Done (RStop bytes err c') \<Rightarrow> Done ((bytes, err), c')
      | Panics \<Rightarrow> Panics
      | Loops \<Rightarrow> Loops
      | Pending \<Rightarrow> Pending)"
  by pat_completeness auto
termination
proof (relation "inv_image (less_than <*lex*> less_than)
          (\<lambda>(A, now, c, n). (length (ReadRaw_script (transport c)), length (bufRead c)))")
  show "wf (inv_image (less_than <*lex*> less_than)
          (\<lambda>(A :: 'cs CipherOps, now :: int, c :: 'cs Conn, n :: nat).
             (length (ReadRaw_script (transport c)), length (bufRead c))))"
    by (intro wf_inv_image wf_lex_prod wf_less_than)
next
  fix A :: "'cs CipherOps" and now now' :: int and c c' :: "'cs Conn" and n :: nat and x
  assume "Read_step A now c n = Done x" "x = RCont now' c'"
  then have "Read_step A now c n = Done (RCont now' c')" by simp
  from Read_step_RCont [OF this]
  show "((A, now', c', n), (A, now, c, n)) \<in> inv_image (less_than <*lex*> less_than)
          (\<lambda>(A, now, c, n). (length (ReadRaw_script (transport c)), length (bufRead c)))"
    by auto
qed

declare Read.simps [simp del]

text \<open>The connection a step of \<open>flush\<close> ends with.\<close>

fun fconn :: "'cs fstep \<Rightarrow> 'cs Conn" where
  "fconn (FStop err c) = c"
| "fconn (FCont c) = c"

text \<open>
  The part of the cipher contract about lengths alone: a ciphertext is 16 bytes longer
  than its plaintext.
\<close>

definition aead_len :: "'cs CipherOps \<Rightarrow> bool" where
  "aead_len A = (\<forall>s p ct s'. Encrypt A s p = (Inr ct, s') \<longrightarrow> length ct = length p + 16)"

text \<open>Example connections for concrete runs of the model.\<close>

definition ex_transport :: Transport where
  "ex_transport =
     \<lparr>MaxRawSize = 100, WriteRaw_script = [], WriteRaw_log = [], ReadRaw_script = [],
      rotator = None, Close_result = None, Close_calls = 0\<rparr>"

definition ex_conn :: "Transport \<Rightarrow> nat Conn" where
  "ex_conn t = newConn 0 t (10 * Millisecond) (500 * Millisecond) demo_initiator True ''c1''"

definition ex_failing :: "nat Conn" where
  "ex_failing = ex_conn (ex_transport\<lparr>WriteRaw_script := [Some (ErrDriver 1)]\<rparr>)"

definition ex_rotating :: "nat Conn" where
  "ex_rotating =
     (ex_conn (ex_transport\<lparr>MaxRawSize := 22, WriteRaw_script := [None, None, None, None],
        rotator := Some \<lparr>ShouldRotate_script = [True, False, False, False],
                          RotateTX_script = [None], RotateRX_calls = 0\<rparr>\<rparr>))
     \<lparr>bufWrite := BuildFrame [] (mkFrame MsgTypePing [])\<rparr>"

text \<open>
  The pieces into which the loop of \<open>Write\<close> cuts its argument, and the DATA frames built
  from them; used to state what the loop appends.
\<close>

function chunks :: "nat \<Rightarrow> 'a list \<Rightarrow> 'a list list" where
  "chunks m p = (if m = 0 \<or> p = [] then [] else take m p # chunks m (drop m p))"
  by pat_completeness auto
termination
  by (relation "measure (\<lambda>(m, p). length p)") auto

declare chunks.simps [simp del]

definition data_frames :: "byte list list \<Rightarrow> byte list" where
  "data_frames ds = concat (map (\<lambda>d. BuildFrame [] (mkFrame MsgTypeData d)) ds)"

definition ex_small :: "nat Conn" where
  "ex_small = ex_conn (ex_transport\<lparr>MaxRawSize := 26, WriteRaw_script := [Some (ErrDriver 1)]\<rparr>)"

definition ex_small_after :: "nat Conn" where
  "ex_small_after =
     ex_small\<lparr>transport := (transport ex_small)\<lparr>WriteRaw_script := [],
                  WriteRaw_log := [([0, 0, 0, 22, 0, 0, 0, 1, 0, 1] @ replicate 16 0,
                                    Some (ErrDriver 1))]\<rparr>,
               bufWrite := [0, 0, 0, 1, 0, 2, 0, 0, 0, 1, 0, 3],
               noise := demo_initiator\<lparr>cs1 := Some 1\<rparr>\<rparr>"

definition ex_ok :: "nat Conn" where
  "ex_ok = (ex_conn (ex_transport\<lparr>MaxRawSize := 26, WriteRaw_script := [None, None, None]\<rparr>))
             \<lparr>bufWrite := data_frames [[1], [2], [3]]\<rparr>"

definition ex_ok_after :: "nat Conn" where
  "ex_ok_after =
     ex_ok\<lparr>transport := (transport ex_ok)\<lparr>WriteRaw_script := [],
               WriteRaw_log := [([0, 0, 0, 22, 0, 0, 0, 1, 0, 1] @ replicate 16 0, None),
                                ([0, 0, 0, 22, 1, 1, 1, 2, 1, 3] @ replicate 16 1, None),
                                ([0, 0, 0, 22, 2, 2, 2, 3, 2, 5] @ replicate 16 2, None)]\<rparr>,
            bufWrite := [],
            noise := demo_initiator\<lparr>cs1 := Some 3\<rparr>,
            lastActive := 5\<rparr>"

definition ex_reader :: "nat Conn" where
  "ex_reader = (ex_conn ex_transport)\<lparr>bufRead := BuildFrame [] (mkFrame MsgTypeData [1, 2, 3]) @ [9]\<rparr>"

text \<open>
  The facts about one step that the results on \<open>flush\<close> need: at most one chunk is
  handed to \<open>WriteRaw\<close>; a failed write stops the loop with its error; the chunk is a
  sealed plaintext of at most \<open>max 5 maxChunk\<close> bytes; the write buffer loses a prefix;
  a step that stops without an error leaves it empty.
\<close>

definition step_new :: "'cs Conn \<Rightarrow> 'cs fstep \<Rightarrow> (byte list \<times> error option) list" where
  "step_new c st = drop (length (WriteRaw_log (transport c))) (WriteRaw_log (transport (fconn st)))"

definition step_spec :: "'cs CipherOps \<Rightarrow> 'cs Conn \<Rightarrow> 'cs fstep \<Rightarrow> bool" where
  "step_spec A c st =
     (WriteRaw_log (transport (fconn st)) = WriteRaw_log (transport c) @ step_new c st
      \<and> length (step_new c st) \<le> 1
      \<and> (\<forall>chunk err. (chunk, Some err) \<in> set (step_new c st) \<longrightarrow> st = FStop (Some err) (fconn st))
      \<and> (aead_len A \<longrightarrow>
           (\<forall>x \<in> set (step_new c st).
              20 \<le> length (fst x)
              \<and> int (length (fst x)) - 20 \<le> max 5 (MaxRawSize (transport c) - NoiseOverhead)))
      \<and> (\<exists>k. bufWrite (fconn st) = drop k (bufWrite c))
      \<and> MaxRawSize (transport (fconn st)) = MaxRawSize (transport c)
      \<and> (st = FStop None (fconn st) \<longrightarrow> bufWrite (fconn st) = []))"

section \<open>Listener and janitor (aznet.go)\<close>

text \<open>
  The listener keeps its live connections in a \<open>sync.Map\<close> from connection id to
  \<open>*Conn\<close>: an association list with distinct keys, in the order in which \<open>Range\<close>
  visits them.  The calls that the janitor makes on the driver are recorded in
  \<open>driver_calls\<close>; their errors are discarded by the code.  Of the configuration only
  \<open>idleTimeout\<close> matters here.
\<close>

datatype driver_call = DeleteToken string | CleanupSession string

record 'cs Listener =
  conns :: "(string \<times> 'cs Conn) list"
  driver_calls :: "driver_call list"
  idleTimeout :: Duration

text \<open>
  \<open>time.Since(t)\<close> is \<open>time.Now().Sub(t)\<close>, a \<open>Duration\<close>: the difference in nanoseconds,
  which \<open>Sub\<close> saturates at the ends of the \<open>int64\<close> range.
\<close>

definition time_Sub :: "int \<Rightarrow> int \<Rightarrow> Duration" where
  "time_Sub t u =
     (let d = t - u in
      if d > 2 ^ 63 - 1 then 2 ^ 63 - 1 else if d < - (2 ^ 63) then - (2 ^ 63) else d)"

text \<open>The condition under which the janitor evicts a connection.\<close>

definition janitor_cond :: "Duration \<Rightarrow> int \<Rightarrow> 'cs Conn \<Rightarrow> bool" where
  "janitor_cond timeout now conn =
     (let closed' = closed conn;
          closedRead' = closedRead conn;
          peerLastSeen' = peerLastSeen conn
      in (closed' \<and> closedRead') \<or> time_Sub now peerLastSeen' > timeout)"

text \<open>
  The function passed to \<open>Range\<close>, for one entry of the map.  It returns the listener
  afterwards and, when the connection was evicted, the connection as \<open>Close\<close> left it
  (the map no longer refers to it).
\<close>

definition janitor_visit ::
  "'cs CipherOps \<Rightarrow> int \<Rightarrow> string \<Rightarrow> 'cs Conn \<Rightarrow> 'cs Listener
   \<Rightarrow> ('cs Listener \<times> (string \<times> 'cs Conn) list) run" where
  "janitor_visit A now cid conn l =
     (if janitor_cond (idleTimeout l) now conn then
        run_bind (Close A now conn) (\<lambda>(err, conn').
          Done (l\<lparr>driver_calls := driver_calls l @ [DeleteToken cid, CleanupSession cid],
                  conns := filter (\<lambda>(k, v). k \<noteq> cid) (conns l)\<rparr>,
                [(cid, conn')]))
      else Done (l, []))"

fun janitor_range ::
  "'cs CipherOps \<Rightarrow> int \<Rightarrow> (string \<times> 'cs Conn) list \<Rightarrow> 'cs Listener
   \<Rightarrow> ('cs Listener \<times> (string \<times> 'cs Conn) list) run" where
  "janitor_range A now [] l = Done (l, [])"
| "janitor_range A now ((cid, conn) # rest) l =
     run_bind (janitor_visit A now cid conn l) (\<lambda>(l1, ev1).
       run_bind (janitor_range A now rest l1) (\<lambda>(l2, ev2). Done (l2, ev1 @ ev2)))"

text \<open>One tick of the janitor: \<open>l.conns.Range(...)\<close>.\<close>

definition janitor_tick ::
  "'cs CipherOps \<Rightarrow> int \<Rightarrow> 'cs Listener \<Rightarrow> ('cs Listener \<times> (string \<times> 'cs Conn) list) run" where
  "janitor_tick A now l = janitor_range A now (conns l) l"

text \<open>
  An example listener: a connection closed on both sides, an idle one, a live one; and a
  listener whose only connection is idle and runs over a driver with a raw unit of 10
  bytes, less than the overhead of a sealed chunk.
\<close>

definition ex_stale :: "nat Conn" where
  "ex_stale = (ex_conn ex_transport)\<lparr>closeOnce := True, closed := True,
                 closedRead := True, peerLastSeen := 990\<rparr>"

definition ex_idle :: "nat Conn" where
  "ex_idle = (ex_conn (ex_transport\<lparr>WriteRaw_script := [None]\<rparr>))\<lparr>peerLastSeen := 100\<rparr>"

definition ex_live :: "nat Conn" where
  "ex_live = (ex_conn ex_transport)\<lparr>peerLastSeen := 900\<rparr>"

definition ex_listener :: "nat Listener" where
  "ex_listener =
     \<lparr>conns = [(''a'', ex_stale), (''b'', ex_idle), (''c'', ex_live)],
      driver_calls = [], idleTimeout = 300\<rparr>"

definition ex_idle_closed :: "nat Conn" where
  "ex_idle_closed =
     (ex_conn (ex_transport\<lparr>WriteRaw_log := [([0, 0, 0, 21, 0, 0, 0, 0, 2] @ replicate 16 0, None)],
                           Close_calls := 1\<rparr>))
       \<lparr>peerLastSeen := 100, closeOnce := True, closed := True, cancelled := True,
         lastActive := 1000, noise := demo_initiator\<lparr>cs1 := Some 1\<rparr>\<rparr>"

definition ex_listener_after :: "nat Listener" where
  "ex_listener_after =
     ex_listener\<lparr>conns := [(''c'', ex_live)],
                  driver_calls := [DeleteToken ''a'', CleanupSession ''a'',
                                   DeleteToken ''b'', CleanupSession ''b'']\<rparr>"

definition ex_tiny :: "nat Conn" where
  "ex_tiny = (ex_conn (ex_transport\<lparr>MaxRawSize := 10, WriteRaw_script := [None]\<rparr>))
               \<lparr>peerLastSeen := 100\<rparr>"

definition ex_tiny_listener :: "nat Listener" where
  "ex_tiny_listener = \<lparr>conns = [(''d'', ex_tiny)], driver_calls = [], idleTimeout = 300\<rparr>"

subsection \<open>The read side of a connection\<close>

text \<open>
  \<open>read_side c\<close> is \<open>c\<close> with everything that only the write path uses blanked out: the
  write buffer, the sending cipher state, the scripts and the log of the writing
  transport calls, \<open>closedWrite\<close>, \<open>lastActive\<close> and the write deadline.  Two connections
  with the same \<open>read_side\<close> differ on the write path only.
\<close>

definition nnorm :: "'cs Noise \<Rightarrow> 'cs Noise" where
  "nnorm nh = (if isInitiator nh then nh\<lparr>cs1 := None\<rparr> else nh\<lparr>cs2 := None\<rparr>)"

definition rnorm :: "Rotator \<Rightarrow> Rotator" where
  "rnorm r = r\<lparr>ShouldRotate_script := [], RotateTX_script := []\<rparr>"

definition tnorm :: "Transport \<Rightarrow> Transport" where
  "tnorm t = t\<lparr>WriteRaw_script := [], WriteRaw_log := [], rotator := map_option rnorm (rotator t)\<rparr>"

definition read_side :: "'cs Conn \<Rightarrow> 'cs Conn" where
  "read_side c =
     c\<lparr>transport := tnorm (transport c), bufWrite := [], noise := nnorm (noise c),
       closedWrite := False, lastActive := 0, writeDeadline := None\<rparr>"







section \<open>Ordered delivery: the two ends of a connection\<close>

text \<open>
  A sequence of \<open>Write\<close> calls on one connection (each with the current time and the
  bytes to send), with the results of the calls, and a sequence of \<open>Read\<close> calls (each
  with the current time and the length of the destination) on the peer, with the
  concatenation of the bytes returned until the first call that does not return data.
\<close>

fun Writes ::
  "'cs CipherOps \<Rightarrow> 'cs Conn \<Rightarrow> (int \<times> byte list) list
   \<Rightarrow> ((int \<times> error option) list \<times> 'cs Conn) run" where
  "Writes A c [] = Done ([], c)"
| "Writes A c ((now, x) # ws) =
     run_bind (Write A now c x) (\<lambda>(res, c1).
       run_bind (Writes A c1 ws) (\<lambda>(ress, c2). Done (res # ress, c2)))"

fun Reads :: "'cs CipherOps \<Rightarrow> 'cs Conn \<Rightarrow> (int \<times> nat) list \<Rightarrow> byte list" where
  "Reads A c [] = []"
| "Reads A c ((now, n) # calls) =
     (case Read A now c n of
        Done ((bytes, None), c') \<Rightarrow> bytes @ Reads A c' calls
      | _ \<Rightarrow> [])"

text \<open>The bytes that a range of the log of \<open>WriteRaw\<close> put on the wire.\<close>

definition wire :: "'cs Conn \<Rightarrow> 'cs Conn \<Rightarrow> byte list" where
  "wire a a' =
     concat (map fst (drop (length (WriteRaw_log (transport a))) (WriteRaw_log (transport a'))))"

text \<open>
  What the driver contract allows \<open>ReadRaw\<close> to answer on the receiving side: no data
  yet, or a stream that is read to its end; and the bytes an answer carries.
\<close>

fun raw_ok :: "raw_read \<Rightarrow> bool" where
  "raw_ok (RawErr err) = (err = ErrNoData)"
| "raw_ok (RawStream bytes serr) = (serr = None \<or> serr = Some EOF)"

fun raw_bytes :: "raw_read \<Rightarrow> byte list" where
  "raw_bytes (RawErr err) = []"
| "raw_bytes (RawStream bytes serr) = bytes"

text \<open>
  Frames as pairs of type and payload, their encoding, the frames the receiving side
  can meet before a FIN, and the application bytes a list of frames carries.
\<close>

definition enc_frame :: "byte \<times> byte list \<Rightarrow> byte list" where
  "enc_frame f = BuildFrame [] (mkFrame (fst f) (snd f))"

definition frame_ok :: "byte \<times> byte list \<Rightarrow> bool" where
  "frame_ok f =
     (length (snd f) < 2 ^ 32 \<and> fst f \<noteq> MsgTypeFin \<and> (fst f \<noteq> MsgTypeData \<or> snd f \<noteq> []))"

definition data_payloads :: "(byte \<times> byte list) list \<Rightarrow> byte list" where
  "data_payloads fs = concat (map snd (filter (\<lambda>f. fst f = MsgTypeData) fs))"

text \<open>
  \<open>opens A r W ps r'\<close>: read from the receiving cipher state \<open>r\<close>, the wire bytes \<open>W\<close> are
  sealed chunks that decrypt to the plaintexts \<open>ps\<close>, leaving the state \<open>r'\<close>.
\<close>

inductive opens :: "'cs CipherOps \<Rightarrow> 'cs \<Rightarrow> byte list \<Rightarrow> byte list list \<Rightarrow> 'cs \<Rightarrow> bool"
  for A :: "'cs CipherOps" where
  opens_Nil: "opens A r [] [] r"
| opens_Cons:
    "Decrypt A r ct = (Inr p, r1) \<Longrightarrow> length ct < 2 ^ 32 \<Longrightarrow> opens A r1 W ps r2 \<Longrightarrow>
     opens A r (PutUint32 (of_nat (length ct)) @ ct @ W) (p # ps) r2"

text \<open>The condition under which \<open>UnsealData\<close> reports a short buffer.\<close>

definition short_buf :: "byte list \<Rightarrow> bool" where
  "short_buf data = (length data < 4 \<or> length data < 4 + unat (Uint32 (take 4 data)))"

text \<open>
  The state of a receiving connection to which the application bytes \<open>Y\<close> are still to
  be delivered: what is left of the frame being read, then the frames still in the read
  buffer, in the Noise buffer and in the answers of \<open>ReadRaw\<close> to come.
\<close>

definition recv_inv :: "'cs CipherOps \<Rightarrow> 'cs Conn \<Rightarrow> byte list \<Rightarrow> bool" where
  "recv_inv A c Y =
     (\<not> closed c \<and> \<not> closedRead c \<and> readDeadline c = None \<and> 0 \<le> readRemain c
      \<and> list_all raw_ok (ReadRaw_script (transport c)) \<and> short_buf (bufNoise c)
      \<and> nat (readRemain c) \<le> length (bufRead c)
      \<and> (\<exists>r r_end pcs fs.
            recv_cs (noise c) = Some r
            \<and> opens A r (bufNoise c @ concat (map raw_bytes (ReadRaw_script (transport c))))
                 pcs r_end
            \<and> list_all frame_ok fs
            \<and> drop (nat (readRemain c)) (bufRead c) @ concat pcs = concat (map enc_frame fs)
            \<and> Y = take (nat (readRemain c)) (bufRead c) @ data_payloads fs))"

text \<open>
  A run of both ends: the sender cuts its writes at an \<open>mtu\<close> of 3 and rotates once, the
  receiver gets the bytes in two streams that do not end at chunk boundaries.
\<close>

definition ex_sender :: "nat Conn" where
  "ex_sender =
     ex_conn (ex_transport\<lparr>MaxRawSize := 28, WriteRaw_script := [None, None, None, None],
        rotator := Some \<lparr>ShouldRotate_script = [False, True, False, False],
                          RotateTX_script = [None], RotateRX_calls = 0\<rparr>\<rparr>)"

definition ex_writes :: "(int \<times> byte list) list" where
  "ex_writes = [(1, [1, 2, 3, 4]), (2, [5])]"

definition ex_sent :: "nat Conn" where
  "ex_sent =
     ex_sender
       \<lparr>transport := (transport ex_sender)
          \<lparr>WriteRaw_script := [],
           WriteRaw_log :=
             [([0, 0, 0, 24, 0, 0, 0, 3, 0, 1, 2, 3,
                0, 0, 0, 0, 0, 0, 0, 0, 0, 0, 0, 0, 0, 0, 0, 0], None),
              ([0, 0, 0, 21, 1, 1, 1, 1, 4,
                1, 1, 1, 1, 1, 1, 1, 1, 1, 1, 1, 1, 1, 1, 1, 1], None),
              ([0, 0, 0, 22, 2, 2, 2, 3, 2, 6,
                2, 2, 2, 2, 2, 2, 2, 2, 2, 2, 2, 2, 2, 2, 2, 2], None),
              ([0, 0, 0, 22, 3, 3, 3, 4, 3, 8,
                3, 3, 3, 3, 3, 3, 3, 3, 3, 3, 3, 3, 3, 3, 3, 3], None)],
           rotator := Some \<lparr>ShouldRotate_script = [], RotateTX_script = [],
                             RotateRX_calls = 0\<rparr>\<rparr>,
        noise := demo_initiator\<lparr>cs1 := Some 4\<rparr>, lastActive := 2\<rparr>"

definition ex_receiver :: "nat Conn" where
  "ex_receiver =
     newConn 0
       (ex_transport
          \<lparr>ReadRaw_script :=
             [RawErr ErrNoData,
              RawStream
                [0, 0, 0, 24, 0, 0, 0, 3, 0, 1, 2, 3,
                 0, 0, 0, 0, 0, 0, 0, 0, 0, 0, 0, 0, 0, 0, 0, 0, 0, 0] None,
              RawErr ErrNoData,
              RawStream
                [0, 21, 1, 1, 1, 1, 4,
                 1, 1, 1, 1, 1, 1, 1, 1, 1, 1, 1, 1, 1, 1, 1, 1,
                 0, 0, 0, 22, 2, 2, 2, 3, 2, 6,
                 2, 2, 2, 2, 2, 2, 2, 2, 2, 2, 2, 2, 2, 2, 2, 2,
                 0, 0, 0, 22, 3, 3, 3, 4, 3, 8,
                 3, 3, 3, 3, 3, 3, 3, 3, 3, 3, 3, 3, 3, 3, 3, 3] (Some EOF)],
           rotator := Some \<lparr>ShouldRotate_script = [], RotateTX_script = [],
                             RotateRX_calls = 0\<rparr>\<rparr>)
       (10 * Millisecond) (500 * Millisecond) demo_responder True ''c2''"

definition ex_calls :: "(int \<times> nat) list" where
  "ex_calls = [(10, 2), (11, 2), (12, 2), (13, 2), (14, 2)]"

text \<open>
  A driver with a raw unit of \<open>2 ^ 32 + 4\<close> bytes, a write of \<open>mtu = 2 ^ 32 - 21\<close> bytes
  and the sealed chunk it puts on the wire.
\<close>

definition ex_big :: "nat Conn" where
  "ex_big = ex_conn (ex_transport\<lparr>MaxRawSize := 2 ^ 32 + 4, WriteRaw_script := [None]\<rparr>)"

definition ex_big_data :: "byte list" where
  "ex_big_data = replicate (2 ^ 32 - 21) 0"

definition ex_big_plain :: "byte list" where
  "ex_big_plain = [255, 255, 255, 235, 0] @ ex_big_data"

definition ex_big_wire :: "byte list" where
  "ex_big_wire = [0, 0, 0, 0] @ ex_big_plain @ replicate 16 0"

definition ex_big_sent :: "nat Conn" where
  "ex_big_sent =
     ex_big
       \<lparr>transport := (transport ex_big)
          \<lparr>WriteRaw_script := [], WriteRaw_log := [(ex_big_wire, None)]\<rparr>,
        noise := demo_initiator\<lparr>cs1 := Some 1\<rparr>, lastActive := 1\<rparr>"

definition ex_big_peer :: "nat Conn" where
  "ex_big_peer =
     newConn 0 (ex_transport\<lparr>ReadRaw_script := [RawStream ex_big_wire (Some EOF)]\<rparr>)
       (10 * Millisecond) (500 * Millisecond) demo_responder True ''c2''"

text \<open>
  The chunks that \<open>SealData\<close> makes of a list of plaintexts sealed one after the other,
  and the session afterwards; \<open>None\<close> when one of them is not sealed.
\<close>

fun seal_all ::
  "'cs CipherOps \<Rightarrow> 'cs Noise \<Rightarrow> byte list list \<Rightarrow> (byte list list \<times> 'cs Noise) option" where
  "seal_all A nh [] = Some ([], nh)"
| "seal_all A nh (p # ps) =
     (case SealData A nh p of
        Done (Inr sealed, nh') \<Rightarrow>
          (case seal_all A nh' ps of
             Some (ss, nh'') \<Rightarrow> Some (sealed # ss, nh'')
           | None \<Rightarrow> None)
      | _ \<Rightarrow> None)"



text \<open>
  A connection on which \<open>flush\<close> cannot wait for ever or panic before a raw write fails:
  the session has its sending cipher state, a raw unit has room for the overhead of a
  sealed chunk, and among the answers of the driver to come the first failing answer of
  \<open>WriteRaw\<close> is reached before the answers of the rotator run out.  \<open>flush_mid\<close> is the
  same inside an iteration, once \<open>ShouldRotate\<close> has answered.
\<close>

definition flush_ready :: "'cs Conn \<Rightarrow> bool" where
  "flush_ready c =
     (send_cs (noise c) \<noteq> None \<and> NoiseOverhead \<le> MaxRawSize (transport c)
      \<and> (let answered = length (takeWhile (\<lambda>w. w = None) (WriteRaw_script (transport c)))
          in answered < length (WriteRaw_script (transport c))
             \<and> (case rotator (transport c) of
                   None \<Rightarrow> True
                 | Some r \<Rightarrow> answered < length (ShouldRotate_script r)
                              \<and> answered \<le> length (RotateTX_script r))))"

definition flush_mid :: "'cs Conn \<Rightarrow> bool" where
  "flush_mid c =
     (send_cs (noise c) \<noteq> None \<and> NoiseOverhead \<le> MaxRawSize (transport c)
      \<and> (let answered = length (takeWhile (\<lambda>w. w = None) (WriteRaw_script (transport c)))
          in answered < length (WriteRaw_script (transport c))
             \<and> (case rotator (transport c) of
                   None \<Rightarrow> True
                 | Some r \<Rightarrow> answered \<le> length (ShouldRotate_script r)
                              \<and> answered \<le> length (RotateTX_script r))))"

section \<open>Byte encoding lemmas\<close>

lemma length_PutUint32: "length (PutUint32 v) = 4"
  by (simp add: PutUint32_def)

lemma Uint32_PutUint32: "Uint32 (PutUint32 v @ rest) = v"
proof (rule bit_word_eqI)
  fix n :: nat
  assume n: "n < LENGTH(32)"
  have c: "n < 8 \<or> (8 \<le> n \<and> n < 16) \<or> (16 \<le> n \<and> n < 24) \<or> (24 \<le> n \<and> n < 32)"
    using n by auto
  show "bit (Uint32 (PutUint32 v @ rest)) n = bit v n"
    using c n unfolding PutUint32_def
    by (auto simp: bit_simps)
qed

lemma unat_of_nat_len32: "n < 2 ^ 32 \<Longrightarrow> unat (of_nat n :: 32 word) = n"
  by (simp add: unat_of_nat)

section \<open>Frame codec: results\<close>

lemma BuildFrame_append:
  "BuildFrame buf f = buf @ PutUint32 (of_nat (length (Payload f))) @ [Type f] @ Payload f"
  by (simp add: BuildFrame_def Let_def)

text \<open>
  C4 (as amended).  For every buffer, type byte and payload, \<open>BuildFrame\<close> appends exactly
  \<open>5 + |payload|\<close> bytes and leaves what was in the buffer unchanged; the appended bytes
  are the four bytes that \<open>PutUint32\<close> writes for \<open>uint32(|payload|)\<close>, then the type
  byte, then the payload.  Read back as a big-endian number the length field is
  \<open>|payload| mod 2^32\<close>, which is \<open>|payload|\<close> whenever \<open>|payload| < 2^32\<close>.
\<close>

theorem BuildFrame_layout:
  "length (BuildFrame buf f) = length buf + 5 + length (Payload f)
   \<and> take (length buf) (BuildFrame buf f) = buf
   \<and> take 4 (drop (length buf) (BuildFrame buf f)) = PutUint32 (of_nat (length (Payload f)))
   \<and> length (take 4 (drop (length buf) (BuildFrame buf f))) = 4
   \<and> unat (Uint32 (take 4 (drop (length buf) (BuildFrame buf f))))
       = length (Payload f) mod 2 ^ 32
   \<and> (length (Payload f) < 2 ^ 32 \<longrightarrow>
        unat (Uint32 (take 4 (drop (length buf) (BuildFrame buf f)))) = length (Payload f))
   \<and> BuildFrame buf f ! (length buf + 4) = Type f
   \<and> drop (length buf + 5) (BuildFrame buf f) = Payload f"
proof -
  let ?l = "PutUint32 (of_nat (length (Payload f)))"
  have e: "BuildFrame buf f = buf @ ?l @ [Type f] @ Payload f"
    by (rule BuildFrame_append)
  have l4: "length ?l = 4" by (rule length_PutUint32)
  have t4: "take 4 (drop (length buf) (BuildFrame buf f)) = ?l"
    using l4 by (simp add: e)
  have u: "Uint32 ?l = of_nat (length (Payload f))"
    using Uint32_PutUint32 [of _ "[]"] by simp
  have a: "length (BuildFrame buf f) = length buf + 5 + length (Payload f)"
    using l4 by (simp add: e)
  have b: "take (length buf) (BuildFrame buf f) = buf"
    by (simp add: e)
  have m: "unat (Uint32 (take 4 (drop (length buf) (BuildFrame buf f))))
           = length (Payload f) mod 2 ^ 32"
    by (simp only: t4 u) (simp add: unat_of_nat)
  have c: "length (Payload f) < 2 ^ 32 \<longrightarrow>
        unat (Uint32 (take 4 (drop (length buf) (BuildFrame buf f)))) = length (Payload f)"
    by (simp only: m) simp
  have d: "BuildFrame buf f ! (length buf + 4) = Type f"
    using l4 by (simp add: e nth_append)
  have g: "drop (length buf + 5) (BuildFrame buf f) = Payload f"
    using l4 by (simp add: e)
  have l: "length (take 4 (drop (length buf) (BuildFrame buf f))) = 4"
    by (simp only: t4 l4)
  from a b t4 l m c d g show ?thesis by (intro conjI)
qed

theorem BuildFrame_layout_witness:
  "length (Payload (mkFrame MsgTypeFin [1, 2, 3])) < 2 ^ 32
   \<and> length (BuildFrame [7, 7] (mkFrame MsgTypeFin [1, 2, 3]))
        = length [7 :: byte, 7] + 5 + length (Payload (mkFrame MsgTypeFin [1, 2, 3]))
   \<and> take (length [7 :: byte, 7]) (BuildFrame [7, 7] (mkFrame MsgTypeFin [1, 2, 3])) = [7, 7]
   \<and> unat (Uint32 (take 4 (drop (length [7 :: byte, 7])
            (BuildFrame [7, 7] (mkFrame MsgTypeFin [1, 2, 3])))))
        = length (Payload (mkFrame MsgTypeFin [1, 2, 3]))
   \<and> BuildFrame [7, 7] (mkFrame MsgTypeFin [1, 2, 3]) ! (length [7 :: byte, 7] + 4)
        = Type (mkFrame MsgTypeFin [1, 2, 3])
   \<and> drop (length [7 :: byte, 7] + 5) (BuildFrame [7, 7] (mkFrame MsgTypeFin [1, 2, 3]))
        = Payload (mkFrame MsgTypeFin [1, 2, 3])
   \<and> BuildFrame [7, 7] (mkFrame MsgTypeFin [1, 2, 3]) = [7, 7, 0, 0, 0, 3, 2, 1, 2, 3]"
proof -
  have h: "length (Payload (mkFrame MsgTypeFin [1, 2, 3])) < 2 ^ 32"
    by (simp add: mkFrame_def)
  note t = BuildFrame_layout [of "[7, 7]" "mkFrame MsgTypeFin [1, 2, 3]"]
  from t have a: "length (BuildFrame [7, 7] (mkFrame MsgTypeFin [1, 2, 3]))
        = length [7 :: byte, 7] + 5 + length (Payload (mkFrame MsgTypeFin [1, 2, 3]))"
    by (rule conjunct1)
  from t have b: "take (length [7 :: byte, 7]) (BuildFrame [7, 7] (mkFrame MsgTypeFin [1, 2, 3]))
                  = [7, 7]"
    by blast
  from t h have c: "unat (Uint32 (take 4 (drop (length [7 :: byte, 7])
            (BuildFrame [7, 7] (mkFrame MsgTypeFin [1, 2, 3])))))
        = length (Payload (mkFrame MsgTypeFin [1, 2, 3]))"
    by blast
  from t have d: "BuildFrame [7, 7] (mkFrame MsgTypeFin [1, 2, 3]) ! (length [7 :: byte, 7] + 4)
        = Type (mkFrame MsgTypeFin [1, 2, 3])"
    by blast
  from t have g: "drop (length [7 :: byte, 7] + 5) (BuildFrame [7, 7] (mkFrame MsgTypeFin [1, 2, 3]))
        = Payload (mkFrame MsgTypeFin [1, 2, 3])"
    by blast
  have v: "BuildFrame [7, 7] (mkFrame MsgTypeFin [1, 2, 3]) = [7, 7, 0, 0, 0, 3, 2, 1, 2, 3]"
    by code_simp
  from h a b c d g v show ?thesis by (intro conjI)
qed

text \<open>
  The claim as stated fails for a payload of \<open>2^32\<close> bytes: the length field written is
  \<open>uint32(2^32) = 0\<close>.
\<close>

theorem BuildFrame_length_field_counterexample:
  "unat (Uint32 (take 4 (drop (length ([] :: byte list))
      (BuildFrame [] (mkFrame MsgTypeData (replicate (2 ^ 32) 0))))))
   \<noteq> length (replicate (2 ^ 32) (0 :: byte))"
  by (simp add: BuildFrame_append mkFrame_def PutUint32_def)

section \<open>Adaptive poller: results\<close>

lemma wrap64_id: "- (2 ^ 63) \<le> x \<Longrightarrow> x < 2 ^ 63 \<Longrightarrow> wrap64 x = x"
  by (simp add: wrap64_def)

lemma Sleep_blocking:
  assumes "poll_ok p" "\<not> skip p"
  shows "Sleep p = (Some (Cur p), p\<lparr>Cur := min (2 * Cur p) (Steady p)\<rparr>)"
proof -
  have r: "0 < Cur p" "Cur p \<le> Steady p" "Steady p \<le> 2 ^ 62"
    using assms by (auto simp: poll_ok_def poll_inv_def)
  show ?thesis
  proof (cases "Cur p < Steady p")
    case True
    then have "wrap64 (Cur p * 2) = 2 * Cur p"
      using r by (simp add: wrap64_id)
    then show ?thesis using True assms(2) by (auto simp: Sleep_def Let_def min_def)
  next
    case False
    then have "min (2 * Cur p) (Steady p) = Cur p" using r by (simp add: min_def)
    then show ?thesis using False assms(2) by (simp add: Sleep_def)
  qed
qed

lemma Sleep_skip: "skip p \<Longrightarrow> Sleep p = (None, p\<lparr>skip := False\<rparr>)"
  by (simp add: Sleep_def)

lemma poll_ok_Sleep: "poll_ok p \<Longrightarrow> poll_ok (snd (Sleep p))"
proof (cases "skip p")
  case True
  assume "poll_ok p"
  then show ?thesis using True by (simp add: Sleep_skip poll_ok_def poll_inv_def)
next
  case False
  assume ok: "poll_ok p"
  have r: "0 < Fast p" "Fast p \<le> Cur p" "Cur p \<le> Steady p" "Steady p \<le> 2 ^ 62"
    using ok by (simp_all add: poll_ok_def poll_inv_def)
  have "Fast p \<le> min (2 * Cur p) (Steady p)" using r by simp
  then show ?thesis using r by (simp add: Sleep_blocking [OF ok False] poll_ok_def poll_inv_def)
qed

lemma poll_ok_Reset: "poll_ok p \<Longrightarrow> poll_ok (Reset p)"
  by (simp add: Reset_def poll_ok_def poll_inv_def)

lemma poll_ok_New:
  "fast \<le> 2 ^ 62 \<Longrightarrow> steady \<le> 2 ^ 62 \<Longrightarrow> poll_ok (NewAdaptivePoll fast steady)"
  by (simp add: NewAdaptivePoll_def poll_ok_def poll_inv_def Let_def DefaultFastPoll_def
      Millisecond_def)

lemma sleep_n_blocking:
  "poll_ok p \<Longrightarrow> \<not> skip p \<Longrightarrow>
   length (intervals (sleep_n n p)) = n
   \<and> sorted (intervals (sleep_n n p))
   \<and> (\<forall>d \<in> set (intervals (sleep_n n p)). Cur p \<le> d \<and> d \<le> Steady p)
   \<and> (0 < n \<longrightarrow> hd (intervals (sleep_n n p)) = Cur p)"
proof (induction n arbitrary: p)
  case 0
  then show ?case by simp
next
  case (Suc n)
  let ?q = "p\<lparr>Cur := min (2 * Cur p) (Steady p)\<rparr>"
  have s: "Sleep p = (Some (Cur p), ?q)" using Suc.prems by (rule Sleep_blocking)
  have q: "poll_ok ?q" using poll_ok_Sleep [OF Suc.prems(1)] s by simp
  have nq: "\<not> skip ?q" using Suc.prems(2) by simp
  have r: "0 < Cur p" "Cur p \<le> Steady p"
    using Suc.prems by (auto simp: poll_ok_def poll_inv_def)
  have e: "intervals (sleep_n (Suc n) p) = Cur p # intervals (sleep_n n ?q)"
    by (simp add: s)
  note ih = Suc.IH [OF q nq]
  have a1: "length (intervals (sleep_n (Suc n) p)) = Suc n"
    using ih by (simp only: e length_Cons)
  have b: "\<forall>d \<in> set (intervals (sleep_n n ?q)). Cur p \<le> d \<and> d \<le> Steady p"
  proof
    fix d assume "d \<in> set (intervals (sleep_n n ?q))"
    with ih have "Cur ?q \<le> d \<and> d \<le> Steady ?q" by blast
    then have "min (2 * Cur p) (Steady p) \<le> d \<and> d \<le> Steady p" by simp
    moreover have "Cur p \<le> min (2 * Cur p) (Steady p)" using r by simp
    ultimately show "Cur p \<le> d \<and> d \<le> Steady p" by linarith
  qed
  have a2: "sorted (intervals (sleep_n (Suc n) p))"
    using ih b by (simp only: e sorted_simps) blast
  have a3: "\<forall>d \<in> set (intervals (sleep_n (Suc n) p)). Cur p \<le> d \<and> d \<le> Steady p"
    unfolding e using b r by simp
  have a4: "hd (intervals (sleep_n (Suc n) p)) = Cur p"
    by (simp only: e list.sel)
  show ?case using a1 a2 a3 a4 by blast
qed

lemma Reset_then_Sleep:
  "Sleep (Reset p) = (None, (Reset p)\<lparr>skip := False\<rparr>)
   \<and> fst (Sleep (snd (Sleep (Reset p)))) = Some (Fast p)"
  by (simp add: Sleep_def Reset_def)

text \<open>
  Where the doubling cannot overflow, the poller does what its documentation says.  For
  a poller with a positive fast interval, \<open>fast \<le> current \<le> steady\<close> and
  \<open>steady \<le> 2^62\<close> nanoseconds (\<open>poll_ok\<close>): every \<open>Sleep\<close> and \<open>Reset\<close> keeps these
  conditions; a blocking \<open>Sleep\<close> waits for \<open>current\<close> and leaves
  \<open>current = min (2 * current) steady\<close>; \<open>n\<close> successive blocking sleeps wait for a
  non-decreasing sequence of intervals between \<open>current\<close> and \<open>steady\<close>.  For every poller,
  \<open>Reset\<close> sets \<open>current = fast\<close> and \<open>skip\<close>, the first \<open>Sleep\<close> after it returns without
  blocking and the second blocks for \<open>fast\<close>.
\<close>

lemma AdaptivePoll_in_range:
  assumes "poll_ok p"
  shows "poll_ok (snd (Sleep p)) \<and> poll_inv (snd (Sleep p))
       \<and> poll_ok (Reset p) \<and> poll_inv (Reset p)
       \<and> (\<not> skip p \<longrightarrow>
            fst (Sleep p) = Some (Cur p)
            \<and> Cur (snd (Sleep p)) = min (2 * Cur p) (Steady p)
            \<and> length (intervals (sleep_n n p)) = n
            \<and> sorted (intervals (sleep_n n p))
            \<and> (\<forall>d \<in> set (intervals (sleep_n n p)). Cur p \<le> d \<and> d \<le> Steady p)
            \<and> (0 < n \<longrightarrow> hd (intervals (sleep_n n p)) = Cur p))
       \<and> (fast \<le> 2 ^ 62 \<and> steady \<le> 2 ^ 62 \<longrightarrow>
            poll_ok (NewAdaptivePoll fast steady)
            \<and> \<not> skip (NewAdaptivePoll fast steady)
            \<and> Cur (NewAdaptivePoll fast steady) = Fast (NewAdaptivePoll fast steady))
       \<and> Cur (Reset p) = Fast p \<and> skip (Reset p)
       \<and> Sleep (Reset p) = (None, (Reset p)\<lparr>skip := False\<rparr>)
       \<and> fst (Sleep (snd (Sleep (Reset p)))) = Some (Fast p)"
proof -
  have s: "poll_ok (snd (Sleep p))" using assms by (rule poll_ok_Sleep)
  have r: "poll_ok (Reset p)" using assms by (rule poll_ok_Reset)
  have b: "\<not> skip p \<longrightarrow>
            fst (Sleep p) = Some (Cur p)
            \<and> Cur (snd (Sleep p)) = min (2 * Cur p) (Steady p)
            \<and> length (intervals (sleep_n n p)) = n
            \<and> sorted (intervals (sleep_n n p))
            \<and> (\<forall>d \<in> set (intervals (sleep_n n p)). Cur p \<le> d \<and> d \<le> Steady p)
            \<and> (0 < n \<longrightarrow> hd (intervals (sleep_n n p)) = Cur p)"
  proof
    assume ns: "\<not> skip p"
    have "fst (Sleep p) = Some (Cur p) \<and> Cur (snd (Sleep p)) = min (2 * Cur p) (Steady p)"
      by (simp add: Sleep_blocking [OF assms ns])
    then show "fst (Sleep p) = Some (Cur p)
            \<and> Cur (snd (Sleep p)) = min (2 * Cur p) (Steady p)
            \<and> length (intervals (sleep_n n p)) = n
            \<and> sorted (intervals (sleep_n n p))
            \<and> (\<forall>d \<in> set (intervals (sleep_n n p)). Cur p \<le> d \<and> d \<le> Steady p)
            \<and> (0 < n \<longrightarrow> hd (intervals (sleep_n n p)) = Cur p)"
      using sleep_n_blocking [OF assms ns, of n] by blast
  qed
  have c: "fast \<le> 2 ^ 62 \<and> steady \<le> 2 ^ 62 \<longrightarrow>
            poll_ok (NewAdaptivePoll fast steady)
            \<and> \<not> skip (NewAdaptivePoll fast steady)
            \<and> Cur (NewAdaptivePoll fast steady) = Fast (NewAdaptivePoll fast steady)"
    using poll_ok_New [of fast steady] by (simp add: NewAdaptivePoll_def Let_def)
  have d: "Cur (Reset p) = Fast p \<and> skip (Reset p)" by (simp add: Reset_def)
  have i: "poll_inv (snd (Sleep p))" "poll_inv (Reset p)"
    using s r by (simp_all add: poll_ok_def)
  show ?thesis using s r i b c d Reset_then_Sleep [of p] by blast
qed

text \<open>
  C8.  The poller that \<open>NewAdaptivePoll\<close> builds from a fast interval of \<open>2^62\<close> and a steady
  interval of \<open>2^63 - 1\<close> nanoseconds satisfies \<open>fast \<le> current \<le> steady\<close>, and its first
  \<open>Sleep\<close> blocks for \<open>current\<close>.  The doubling \<open>p.Cur *= 2\<close> then wraps to \<open>- 2^63\<close> before
  the clamp, which compares with \<open>steady\<close> from above only: \<open>current\<close> is not
  \<open>min (2 * current) steady = steady\<close> but negative, the invariant is lost, and the
  intervals of successive sleeps are \<open>2^62\<close>, \<open>- 2^63\<close>, then \<open>0\<close> for ever.
\<close>

theorem AdaptivePoll_overflow:
  "poll_inv (NewAdaptivePoll (2 ^ 62) (2 ^ 63 - 1))
   \<and> \<not> skip (NewAdaptivePoll (2 ^ 62) (2 ^ 63 - 1))
   \<and> fst (Sleep (NewAdaptivePoll (2 ^ 62) (2 ^ 63 - 1))) = Some (2 ^ 62)
   \<and> min (2 * Cur (NewAdaptivePoll (2 ^ 62) (2 ^ 63 - 1)))
         (Steady (NewAdaptivePoll (2 ^ 62) (2 ^ 63 - 1))) = 2 ^ 63 - 1
   \<and> Cur (snd (Sleep (NewAdaptivePoll (2 ^ 62) (2 ^ 63 - 1)))) = - (2 ^ 63)
   \<and> \<not> poll_inv (snd (Sleep (NewAdaptivePoll (2 ^ 62) (2 ^ 63 - 1))))
   \<and> intervals (sleep_n 4 (NewAdaptivePoll (2 ^ 62) (2 ^ 63 - 1)))
       = [2 ^ 62, - (2 ^ 63), 0, 0]
   \<and> \<not> sorted (intervals (sleep_n 4 (NewAdaptivePoll (2 ^ 62) (2 ^ 63 - 1))))"
proof -
  let ?p = "NewAdaptivePoll (2 ^ 62) (2 ^ 63 - 1)"
  have s1: "Sleep ?p = (Some (2 ^ 62),
              \<lparr>Cur = - (2 ^ 63), Fast = 2 ^ 62, Steady = 2 ^ 63 - 1, skip = False\<rparr>)"
    by (simp add: NewAdaptivePoll_def Sleep_def wrap64_def Let_def)
  have n4: "sleep_n 4 ?p = [Some (2 ^ 62), Some (- (2 ^ 63)), Some 0, Some 0]"
    by code_simp
  have i: "intervals (sleep_n 4 ?p) = [2 ^ 62, - (2 ^ 63), 0, 0]"
    by (simp only: n4 intervals.simps)
  have a: "poll_inv ?p" by (simp add: NewAdaptivePoll_def Let_def poll_inv_def)
  have b: "\<not> skip ?p" by (simp add: NewAdaptivePoll_def Let_def)
  have c: "fst (Sleep ?p) = Some (2 ^ 62)" by (simp only: s1 fst_conv)
  have d: "min (2 * Cur ?p) (Steady ?p) = 2 ^ 63 - 1"
    by (simp add: NewAdaptivePoll_def Let_def)
  have e: "Cur (snd (Sleep ?p)) = - (2 ^ 63)" by (simp only: s1 snd_conv) simp
  have f: "\<not> poll_inv (snd (Sleep ?p))" by (simp only: s1 snd_conv) (simp add: poll_inv_def)
  have g: "\<not> sorted (intervals (sleep_n 4 ?p))" by (simp only: i) simp
  from a b c d e f i g show ?thesis by (intro conjI)
qed

section \<open>Noise session: results\<close>

lemma aead_sync_demo: "aead_sync demo_cipher (=)"
  by (simp add: aead_sync_def demo_cipher_def demo_Encrypt_def demo_Decrypt_def tag_of_def comp_def)

lemma session_pair_demo: "session_pair (=) demo_initiator demo_responder"
  by (simp add: session_pair_def demo_initiator_def demo_responder_def send_cs_def recv_cs_def)

lemma EncryptData_send:
  "send_cs nh = Some s \<Longrightarrow> Encrypt A s p = (r, s') \<Longrightarrow>
   EncryptData A nh p = Done (r, if isInitiator nh then nh\<lparr>cs1 := Some s'\<rparr> else nh\<lparr>cs2 := Some s'\<rparr>)"
  by (simp add: EncryptData_def send_cs_def split: if_splits)

lemma DecryptData_recv:
  "recv_cs nh = Some s \<Longrightarrow> Decrypt A s ct = (r, s') \<Longrightarrow>
   DecryptData A nh ct = Done (r, if isInitiator nh then nh\<lparr>cs2 := Some s'\<rparr> else nh\<lparr>cs1 := Some s'\<rparr>)"
  by (simp add: DecryptData_def recv_cs_def split: if_splits)

text \<open>
  C5.  When the input has fewer than 4 bytes, or fewer than \<open>4 + length\<close> bytes for the
  \<open>length\<close> in its 4-byte big-endian prefix, \<open>UnsealData\<close> returns the short-buffer
  error, no plaintext and the input itself as the remaining bytes, and the session
  (hence the receive cipher state) is unchanged.
\<close>

theorem UnsealData_short_buffer:
  "length data < 4 \<or> length data < 4 + unat (Uint32 (take 4 data)) \<Longrightarrow>
   UnsealData A nh data = Done ((None, Some data, Some ErrShortBuffer), nh)"
  by (auto simp: UnsealData_def Let_def)

theorem UnsealData_short_buffer_witness:
  "(length [0, 0, 0, 9, 1, 2 :: byte] < 4
    \<or> length [0, 0, 0, 9, 1, 2 :: byte] < 4 + unat (Uint32 (take 4 [0, 0, 0, 9, 1, 2])))
   \<and> UnsealData demo_cipher demo_responder [0, 0, 0, 9, 1, 2]
     = Done ((None, Some [0, 0, 0, 9, 1, 2], Some ErrShortBuffer), demo_responder)"
proof -
  have h: "length [0, 0, 0, 9, 1, 2 :: byte] < 4
    \<or> length [0, 0, 0, 9, 1, 2 :: byte] < 4 + unat (Uint32 (take 4 [0, 0, 0, 9, 1, 2]))"
    by simp
  show ?thesis
    by (rule conjI [OF h UnsealData_short_buffer [OF h]])
qed

lemma UnsealData_sealed:
  assumes "recv_cs nh = Some r" "Decrypt A r ct = (Inr p, r')" "length ct < 2 ^ 32"
  shows "UnsealData A nh (PutUint32 (of_nat (length ct)) @ ct @ rest)
         = Done ((Some p, Some rest, None),
                 if isInitiator nh then nh\<lparr>cs2 := Some r'\<rparr> else nh\<lparr>cs1 := Some r'\<rparr>)"
proof -
  let ?h = "PutUint32 (of_nat (length ct))"
  let ?d = "?h @ ct @ rest"
  have l4: "length ?h = 4" by (rule length_PutUint32)
  have t: "take 4 ?d = ?h" using l4 by simp
  have u: "unat (Uint32 (take 4 ?d)) = length ct"
    using Uint32_PutUint32 [of "of_nat (length ct)" "[]"] assms(3)
    by (simp only: t append_Nil2 unat_of_nat_len32)
  have a: "\<not> length ?d < 4" using l4 by simp
  have b: "\<not> length ?d < 4 + length ct" using l4 by simp
  have c: "take (length ct) (drop 4 ?d) = ct" using l4 by simp
  have d: "drop (4 + length ct) ?d = rest" using l4 by simp
  show ?thesis
    unfolding UnsealData_def Let_def u
    using a b by (simp only: if_False c d DecryptData_recv [OF assms(1,2)] run.case prod.case sum.case)
qed

lemma session_pair_step:
  assumes "session_pair R a b" "send_cs a = Some s" "recv_cs b = Some r" "R s' r'"
  shows "session_pair R (if isInitiator a then a\<lparr>cs1 := Some s'\<rparr> else a\<lparr>cs2 := Some s'\<rparr>)
                        (if isInitiator b then b\<lparr>cs2 := Some r'\<rparr> else b\<lparr>cs1 := Some r'\<rparr>)"
  using assms by (auto simp: session_pair_def send_cs_def recv_cs_def)

text \<open>
  C2 (as amended).  For an established session pair over a cipher that meets its
  contract and every plaintext with \<open>|plaintext| + 16 < 2^32\<close>: \<open>SealData\<close> succeeds,
  \<open>UnsealData\<close> on the peer applied to exactly the sealed bytes returns the plaintext, no
  error and empty remaining bytes, the sealed chunk is the 4-byte prefix followed by
  \<open>|plaintext| + 16\<close> bytes, the prefix reads \<open>|plaintext| + 16\<close>, and the two sessions
  are again an established pair.
\<close>

theorem seal_unseal_roundtrip:
  assumes "aead_sync A R" "session_pair R a b" "length p + 16 < 2 ^ 32"
  shows "\<exists>sealed a' b'.
           SealData A a p = Done (Inr sealed, a')
         \<and> UnsealData A b sealed = Done ((Some p, Some [], None), b')
         \<and> length sealed = 4 + (length p + 16)
         \<and> unat (Uint32 (take 4 sealed)) = length p + 16
         \<and> session_pair R a' b'"
proof -
  from assms(2) obtain s r where sr: "send_cs a = Some s" "recv_cs b = Some r" "R s r"
    by (auto simp: session_pair_def)
  from assms(1) sr(3) obtain ct s' r' where
    e: "Encrypt A s p = (Inr ct, s')" and l: "length ct = length p + 16"
    and d: "Decrypt A r ct = (Inr p, r')" and R': "R s' r'"
    unfolding aead_sync_def by blast
  let ?a' = "if isInitiator a then a\<lparr>cs1 := Some s'\<rparr> else a\<lparr>cs2 := Some s'\<rparr>"
  let ?b' = "if isInitiator b then b\<lparr>cs2 := Some r'\<rparr> else b\<lparr>cs1 := Some r'\<rparr>"
  let ?sealed = "PutUint32 (of_nat (length ct)) @ ct"
  have lt: "length ct < 2 ^ 32" using l assms(3) by simp
  have 1: "SealData A a p = Done (Inr ?sealed, ?a')"
    by (simp add: SealData_def EncryptData_send [OF sr(1) e])
  have 2: "UnsealData A b ?sealed = Done ((Some p, Some [], None), ?b')"
    using UnsealData_sealed [OF sr(2) d lt, of "[]"] by simp
  have 3: "length ?sealed = 4 + (length p + 16)"
    by (simp add: length_PutUint32 l)
  have t4: "take 4 ?sealed = PutUint32 (of_nat (length ct))"
    by (simp add: length_PutUint32)
  have u4: "Uint32 (PutUint32 (of_nat (length ct))) = of_nat (length ct)"
    using Uint32_PutUint32 [of "of_nat (length ct)" "[]"] by simp
  have "unat (Uint32 (take 4 ?sealed)) = length ct"
    using lt by (simp only: t4 u4 unat_of_nat_len32)
  then have 4: "unat (Uint32 (take 4 ?sealed)) = length p + 16"
    using l by simp
  have 5: "session_pair R ?a' ?b'"
    using assms(2) sr(1,2) R' by (rule session_pair_step)
  show ?thesis using 1 2 3 4 5 by blast
qed

theorem seal_unseal_roundtrip_witness:
  "aead_sync demo_cipher (=) \<and> session_pair (=) demo_initiator demo_responder
   \<and> length [1, 2, 3 :: byte] + 16 < 2 ^ 32
   \<and> (\<exists>sealed a' b'.
           SealData demo_cipher demo_initiator [1, 2, 3] = Done (Inr sealed, a')
         \<and> UnsealData demo_cipher demo_responder sealed = Done ((Some [1, 2, 3], Some [], None), b')
         \<and> length sealed = 4 + (length [1, 2, 3 :: byte] + 16)
         \<and> unat (Uint32 (take 4 sealed)) = length [1, 2, 3 :: byte] + 16
         \<and> session_pair (=) a' b')"
proof -
  have h: "length [1, 2, 3 :: byte] + 16 < 2 ^ 32" by simp
  note t = seal_unseal_roundtrip [OF aead_sync_demo session_pair_demo h]
  show ?thesis
    by (intro conjI aead_sync_demo session_pair_demo h t)
qed

text \<open>
  The claim as stated fails for a plaintext of \<open>2^32 - 16\<close> bytes: the ciphertext has
  \<open>2^32\<close> bytes, the prefix written is \<open>uint32(2^32) = 0\<close>, and the peer, reading a
  length of 0, hands an empty ciphertext to the cipher.
\<close>

theorem seal_unseal_roundtrip_counterexample:
  "SealData demo_cipher demo_initiator (replicate (2 ^ 32 - 16) 0)
     = Done (Inr ([0, 0, 0, 0] @ replicate (2 ^ 32 - 16) 0 @ tag_of 0),
             demo_initiator\<lparr>cs1 := Some 1\<rparr>)
   \<and> UnsealData demo_cipher demo_responder ([0, 0, 0, 0] @ replicate (2 ^ 32 - 16) 0 @ tag_of 0)
     = Done ((None, None, Some (ErrCipher 0)), demo_responder)"
  by (simp add: SealData_def EncryptData_def UnsealData_def DecryptData_def demo_cipher_def
      demo_Encrypt_def demo_Decrypt_def demo_initiator_def demo_responder_def tag_of_def
      PutUint32_def)

section \<open>flush: results\<close>

lemma SealData_len:
  assumes "aead_len A" "SealData A nh p = Done (Inr sealed, nh')"
  shows "length sealed = length p + 20"
proof -
  from assms(2) obtain ct where s: "sealed = PutUint32 (of_nat (length ct)) @ ct"
    and e: "EncryptData A nh p = Done (Inr ct, nh')"
    by (auto simp: SealData_def split: run.splits prod.splits sum.splits)
  from e obtain s0 s1 where "Encrypt A s0 p = (Inr ct, s1)"
    by (auto simp: EncryptData_def split: if_splits option.splits prod.splits)
  with assms(1) have "length ct = length p + 16" by (auto simp: aead_len_def)
  with s show ?thesis by (simp add: length_PutUint32)
qed

lemma WriteRaw_Done:
  "WriteRaw t data = Done (r, t') \<Longrightarrow>
   WriteRaw_log t' = WriteRaw_log t @ [(data, r)] \<and> MaxRawSize t' = MaxRawSize t
   \<and> rotator t' = rotator t \<and> ReadRaw_script t' = ReadRaw_script t
   \<and> (\<exists>rs. WriteRaw_script t = r # rs \<and> WriteRaw_script t' = rs)"
  by (auto simp: WriteRaw_def split: list.splits)

text \<open>What one iteration of the data branch does, case by case.\<close>

lemma flush_data_Done:
  assumes "flush_data A now m c = Done st"
  shows "\<exists>res nh. 0 \<le> min (int (length (bufWrite c))) m
     \<and> SealData A (noise c) (take (nat (min (int (length (bufWrite c))) m)) (bufWrite c))
         = Done (res, nh)
     \<and> (case res of
          Inl err \<Rightarrow>
            st = FStop (Some err)
                  (c\<lparr>bufWrite := drop (nat (min (int (length (bufWrite c))) m)) (bufWrite c),
                     noise := nh\<rparr>)
        | Inr sealed \<Rightarrow>
            (\<exists>w t. WriteRaw (transport c) sealed = Done (w, t)
               \<and> (case w of
                    Some err \<Rightarrow>
                      st = FStop (Some err)
                        (c\<lparr>bufWrite := drop (nat (min (int (length (bufWrite c))) m)) (bufWrite c),
                           noise := nh, transport := t\<rparr>)
                  | None \<Rightarrow>
                      st = FCont
                        (c\<lparr>bufWrite := drop (nat (min (int (length (bufWrite c))) m)) (bufWrite c),
                           noise := nh, transport := t, lastActive := now\<rparr>))))"
  using assms
  by (auto simp: flush_data_def Let_def Next_def run_bind_def
      split: if_splits run.splits prod.splits sum.splits option.splits)

lemma flush_rotate_Done:
  assumes "flush_rotate A c = Done st"
  shows "\<exists>res nh. SealData A (noise c) (BuildFrame [] (mkFrame MsgTypeRotate [])) = Done (res, nh)
     \<and> (case res of
          Inl err \<Rightarrow> st = FStop (Some err) (c\<lparr>noise := nh\<rparr>)
        | Inr sealed \<Rightarrow>
            (\<exists>w t. WriteRaw (transport c) sealed = Done (w, t)
               \<and> (case w of
                    Some err \<Rightarrow> st = FStop (Some err) (c\<lparr>noise := nh, transport := t\<rparr>)
                  | None \<Rightarrow>
                      (\<exists>r rerr r'. rotator t = Some r \<and> RotateTX r = Done (rerr, r')
                         \<and> (case rerr of
                              Some err \<Rightarrow>
                                st = FStop (Some err)
                                  (c\<lparr>noise := nh, transport := t\<lparr>rotator := Some r'\<rparr>\<rparr>)
                            | None \<Rightarrow>
                                st = FCont
                                  (c\<lparr>noise := nh, transport := t\<lparr>rotator := Some r'\<rparr>\<rparr>))))))"
  using assms
  by (auto simp: flush_rotate_def Let_def run_bind_def
      split: if_splits run.splits prod.splits sum.splits option.splits)

lemma flush_data_spec:
  assumes "flush_data A now (MaxRawSize (transport c) - NoiseOverhead) c = Done st"
  shows "step_spec A c st"
proof -
  let ?m = "MaxRawSize (transport c) - NoiseOverhead"
  let ?k = "nat (min (int (length (bufWrite c))) ?m)"
  from flush_data_Done [OF assms] obtain res nh where
    k0: "0 \<le> min (int (length (bufWrite c))) ?m" and
    sd: "SealData A (noise c) (take ?k (bufWrite c)) = Done (res, nh)" and
    cs: "case res of
          Inl err \<Rightarrow> st = FStop (Some err) (c\<lparr>bufWrite := drop ?k (bufWrite c), noise := nh\<rparr>)
        | Inr sealed \<Rightarrow>
            (\<exists>w t. WriteRaw (transport c) sealed = Done (w, t)
               \<and> (case w of
                    Some err \<Rightarrow>
                      st = FStop (Some err)
                        (c\<lparr>bufWrite := drop ?k (bufWrite c), noise := nh, transport := t\<rparr>)
                  | None \<Rightarrow>
                      st = FCont
                        (c\<lparr>bufWrite := drop ?k (bufWrite c), noise := nh, transport := t,
                           lastActive := now\<rparr>)))"
    by blast
  show ?thesis
  proof (cases res)
    case (Inl err)
    with cs show ?thesis by (auto simp: step_spec_def step_new_def)
  next
    case (Inr sealed)
    with cs obtain w t where wr: "WriteRaw (transport c) sealed = Done (w, t)" and
      cw: "case w of
             Some err \<Rightarrow>
               st = FStop (Some err)
                 (c\<lparr>bufWrite := drop ?k (bufWrite c), noise := nh, transport := t\<rparr>)
           | None \<Rightarrow>
               st = FCont
                 (c\<lparr>bufWrite := drop ?k (bufWrite c), noise := nh, transport := t,
                    lastActive := now\<rparr>)"
      by auto
    note w = WriteRaw_Done [OF wr]
    have tr: "transport (fconn st) = t" using cw by (cases w) simp_all
    have bw: "bufWrite (fconn st) = drop ?k (bufWrite c)" using cw by (cases w) simp_all
    have new: "step_new c st = [(sealed, w)]" using w tr by (simp add: step_new_def)
    have len: "aead_len A \<Longrightarrow> length sealed = length (take ?k (bufWrite c)) + 20"
      using sd Inr by (simp add: SealData_len)
    have le: "int (length (take ?k (bufWrite c))) \<le> ?m" using k0 by simp
    have f: "\<And>err. w = Some err \<Longrightarrow> st = FStop (Some err) (fconn st)"
      using cw by simp
    have n: "st \<noteq> FStop None (fconn st)" using cw by (cases w) auto
    show ?thesis
      unfolding step_spec_def new
      using w tr bw len le f n by auto
  qed
qed

lemma flush_rotate_spec:
  assumes "flush_rotate A c = Done st" "bufWrite c \<noteq> []"
  shows "step_spec A c st"
proof -
  let ?rb = "BuildFrame [] (mkFrame MsgTypeRotate [])"
  have lrb: "length ?rb = 5" by (simp add: BuildFrame_append mkFrame_def length_PutUint32)
  from flush_rotate_Done [OF assms(1)] obtain res nh where
    sd: "SealData A (noise c) ?rb = Done (res, nh)" and
    cs: "case res of
          Inl err \<Rightarrow> st = FStop (Some err) (c\<lparr>noise := nh\<rparr>)
        | Inr sealed \<Rightarrow>
            (\<exists>w t. WriteRaw (transport c) sealed = Done (w, t)
               \<and> (case w of
                    Some err \<Rightarrow> st = FStop (Some err) (c\<lparr>noise := nh, transport := t\<rparr>)
                  | None \<Rightarrow>
                      (\<exists>r rerr r'. rotator t = Some r \<and> RotateTX r = Done (rerr, r')
                         \<and> (case rerr of
                              Some err \<Rightarrow>
                                st = FStop (Some err)
                                  (c\<lparr>noise := nh, transport := t\<lparr>rotator := Some r'\<rparr>\<rparr>)
                            | None \<Rightarrow>
                                st = FCont
                                  (c\<lparr>noise := nh, transport := t\<lparr>rotator := Some r'\<rparr>\<rparr>)))))"
    by blast
  have d0: "\<exists>k. bufWrite c = drop k (bufWrite c)" by (rule exI [of _ 0]) simp
  show ?thesis
  proof (cases res)
    case (Inl err)
    with cs assms(2) d0 show ?thesis by (auto simp: step_spec_def step_new_def)
  next
    case (Inr sealed)
    with cs obtain w t where wr: "WriteRaw (transport c) sealed = Done (w, t)" and
      cw: "case w of
             Some err \<Rightarrow> st = FStop (Some err) (c\<lparr>noise := nh, transport := t\<rparr>)
           | None \<Rightarrow>
               (\<exists>r rerr r'. rotator t = Some r \<and> RotateTX r = Done (rerr, r')
                  \<and> (case rerr of
                       Some err \<Rightarrow>
                         st = FStop (Some err)
                           (c\<lparr>noise := nh, transport := t\<lparr>rotator := Some r'\<rparr>\<rparr>)
                     | None \<Rightarrow>
                         st = FCont (c\<lparr>noise := nh, transport := t\<lparr>rotator := Some r'\<rparr>\<rparr>)))"
      by auto
    note w = WriteRaw_Done [OF wr]
    have tr: "WriteRaw_log (transport (fconn st)) = WriteRaw_log t
              \<and> MaxRawSize (transport (fconn st)) = MaxRawSize t"
      using cw by (cases w) (auto split: option.splits)
    have bw: "bufWrite (fconn st) = bufWrite c"
      using cw by (cases w) (auto split: option.splits)
    have new: "step_new c st = [(sealed, w)]" using w tr by (simp add: step_new_def)
    have len: "aead_len A \<Longrightarrow> length sealed = 5 + 20"
      using sd Inr lrb SealData_len [of A "noise c" ?rb sealed nh] by simp
    have f: "\<And>err. w = Some err \<Longrightarrow> st = FStop (Some err) (fconn st)"
      using cw by simp
    have n: "st \<noteq> FStop None (fconn st)"
      using cw by (cases w) (auto split: option.splits)
    show ?thesis
      unfolding step_spec_def new
      using w tr bw len f n d0 assms(2) by auto
  qed
qed

lemma flush_step_spec:
  assumes "flush_step A now c = Done st"
  shows "step_spec A c st"
proof (cases "length (bufWrite c) = 0")
  case True
  with assms have "st = FStop None c" by (simp add: flush_step_def)
  with True show ?thesis by (simp add: step_spec_def step_new_def)
next
  case False
  show ?thesis
  proof (cases "rotator (transport c)")
    case None
    with assms False
    have "flush_data A now (MaxRawSize (transport c) - NoiseOverhead) c = Done st"
      by (simp add: flush_step_def Let_def)
    then show ?thesis by (rule flush_data_spec)
  next
    case (Some r)
    with assms False obtain b r' where sr: "ShouldRotate r = Done (b, r')" and
      st: "(if b then flush_rotate A (c\<lparr>transport := (transport c)\<lparr>rotator := Some r'\<rparr>\<rparr>)
           else flush_data A now (MaxRawSize (transport c) - NoiseOverhead)
                  (c\<lparr>transport := (transport c)\<lparr>rotator := Some r'\<rparr>\<rparr>)) = Done st"
      by (auto simp: flush_step_def Let_def run_bind_def split: run.splits prod.splits)
    let ?c1 = "c\<lparr>transport := (transport c)\<lparr>rotator := Some r'\<rparr>\<rparr>"
    have "step_spec A ?c1 st"
    proof (cases b)
      case True
      with st False show ?thesis by (auto intro: flush_rotate_spec)
    next
      case False
      with st have "flush_data A now (MaxRawSize (transport ?c1) - NoiseOverhead) ?c1 = Done st"
        by simp
      then show ?thesis by (rule flush_data_spec)
    qed
    then show ?thesis by (simp add: step_spec_def step_new_def)
  qed
qed

lemma flush_spec:
  assumes "flush A now c = Done (res, c')"
  shows "\<exists>new. WriteRaw_log (transport c') = WriteRaw_log (transport c) @ new
      \<and> (\<forall>chunk err. (chunk, Some err) \<in> set new \<longrightarrow> res = Some err \<and> last new = (chunk, Some err))
      \<and> (aead_len A \<longrightarrow>
           (\<forall>x \<in> set new.
              20 \<le> length (fst x)
              \<and> int (length (fst x)) - 20 \<le> max 5 (MaxRawSize (transport c) - NoiseOverhead)))
      \<and> (\<exists>k. bufWrite c' = drop k (bufWrite c))
      \<and> MaxRawSize (transport c') = MaxRawSize (transport c)
      \<and> (res = None \<longrightarrow> bufWrite c' = [])"
  using assms
proof (induction A now c rule: flush.induct)
  case (1 A now c)
  show ?case
  proof (cases "flush_step A now c")
    case (Done st)
    note sp = flush_step_spec [OF Done]
    show ?thesis
    proof (cases st)
      case (FStop e c1)
      with Done "1.prems" have r: "res = e" "c' = c1" by (simp_all add: flush.simps [of A now c])
      let ?new = "step_new c st"
      have l1: "length ?new \<le> 1" using sp by (simp add: step_spec_def)
      have a: "WriteRaw_log (transport c') = WriteRaw_log (transport c) @ ?new"
        using sp FStop r by (simp add: step_spec_def)
      have b: "\<forall>chunk err. (chunk, Some err) \<in> set ?new \<longrightarrow>
                 res = Some err \<and> last ?new = (chunk, Some err)"
      proof (intro allI impI)
        fix chunk err assume m: "(chunk, Some err) \<in> set ?new"
        with sp have "st = FStop (Some err) (fconn st)" by (simp add: step_spec_def)
        with FStop r have "res = Some err" by simp
        moreover from m l1 have "?new = [(chunk, Some err)]"
          by (cases ?new) auto
        ultimately show "res = Some err \<and> last ?new = (chunk, Some err)" by simp
      qed
      from sp FStop r a b show ?thesis
        unfolding step_spec_def by (intro exI [of _ ?new]) auto
    next
      case (FCont c1)
      with Done "1.prems" have f1: "flush A now c1 = Done (res, c')"
        by (simp add: flush.simps [of A now c])
      from "1.IH" [OF Done FCont f1] obtain new2 where
        n2: "WriteRaw_log (transport c') = WriteRaw_log (transport c1) @ new2" and
        e2: "\<forall>chunk err. (chunk, Some err) \<in> set new2 \<longrightarrow>
               res = Some err \<and> last new2 = (chunk, Some err)" and
        s2: "aead_len A \<longrightarrow>
           (\<forall>x \<in> set new2.
              20 \<le> length (fst x)
              \<and> int (length (fst x)) - 20 \<le> max 5 (MaxRawSize (transport c1) - NoiseOverhead))" and
        k2: "\<exists>k. bufWrite c' = drop k (bufWrite c1)" and
        m2: "MaxRawSize (transport c') = MaxRawSize (transport c1)" and
        z2: "res = None \<longrightarrow> bufWrite c' = []"
        by blast
      let ?new = "step_new c st"
      have a1: "WriteRaw_log (transport c1) = WriteRaw_log (transport c) @ ?new"
        using sp FCont by (simp add: step_spec_def)
      have ok1: "\<And>chunk err. (chunk, Some err) \<notin> set ?new"
        using sp FCont by (auto simp: step_spec_def)
      have m1: "MaxRawSize (transport c1) = MaxRawSize (transport c)"
        using sp FCont by (simp add: step_spec_def)
      have s1: "aead_len A \<longrightarrow>
           (\<forall>x \<in> set ?new.
              20 \<le> length (fst x)
              \<and> int (length (fst x)) - 20 \<le> max 5 (MaxRawSize (transport c) - NoiseOverhead))"
        using sp by (simp add: step_spec_def)
      from sp FCont obtain k1 where k1: "bufWrite c1 = drop k1 (bufWrite c)"
        by (auto simp: step_spec_def)
      from k2 obtain k where "bufWrite c' = drop k (bufWrite c1)" ..
      with k1 have kk: "bufWrite c' = drop (k + k1) (bufWrite c)" by simp
      have a: "WriteRaw_log (transport c') = WriteRaw_log (transport c) @ (?new @ new2)"
        using n2 a1 by simp
      have b: "\<forall>chunk err. (chunk, Some err) \<in> set (?new @ new2) \<longrightarrow>
                 res = Some err \<and> last (?new @ new2) = (chunk, Some err)"
      proof (intro allI impI)
        fix chunk err assume "(chunk, Some err) \<in> set (?new @ new2)"
        with ok1 have m: "(chunk, Some err) \<in> set new2" by auto
        with e2 have "res = Some err \<and> last new2 = (chunk, Some err)" by blast
        moreover from m have "new2 \<noteq> []" by auto
        ultimately show "res = Some err \<and> last (?new @ new2) = (chunk, Some err)" by simp
      qed
      have c: "aead_len A \<longrightarrow>
           (\<forall>x \<in> set (?new @ new2).
              20 \<le> length (fst x)
              \<and> int (length (fst x)) - 20 \<le> max 5 (MaxRawSize (transport c) - NoiseOverhead))"
        using s1 s2 m1 by auto
      show ?thesis
        using a b c kk m1 m2 z2 by (intro exI [of _ "?new @ new2"]) auto
    qed
  qed (use "1.prems" in \<open>simp_all add: flush.simps [of A now c]\<close>)
qed

lemma BuildFrame_Nil: "BuildFrame wb f = wb @ BuildFrame [] f"
  by (simp add: BuildFrame_append)

lemma chunks_Nil: "chunks m [] = []"
  by (simp add: chunks.simps [of m "[]"])

lemma chunks_Cons: "0 < m \<Longrightarrow> p \<noteq> [] \<Longrightarrow> chunks m p = take m p # chunks m (drop m p)"
  by (simp add: chunks.simps [of m p])

lemma Write_loop_Nil: "Write_loop m wb [] = Done wb"
  by (simp add: Write_loop.simps [of m wb "[]"])

lemma Write_loop_chunks:
  "0 < m \<Longrightarrow> Write_loop m wb p = Done (wb @ data_frames (chunks (nat m) p))"
proof (induction m wb p rule: Write_loop.induct)
  case (1 m wb p)
  show ?case
  proof (cases "p = []")
    case True
    then show ?thesis
      by (simp add: Write_loop_Nil chunks_Nil data_frames_def)
  next
    case False
    let ?k = "min (int (length p)) m"
    have k: "0 < ?k" using False "1.prems" by simp
    have nk: "take (nat ?k) p = take (nat m) p \<and> drop (nat ?k) p = drop (nat m) p"
      using "1.prems" by (auto simp: min_def)
    have lp: "length p > 0" using False by simp
    have nk0: "\<not> ?k < 0" "?k \<noteq> 0" using False "1.prems" by (auto simp: min_def)
    have "Write_loop m wb p
          = Write_loop m (BuildFrame wb (mkFrame MsgTypeData (take (nat ?k) p))) (drop (nat ?k) p)"
      by (subst Write_loop.simps) (simp only: lp nk0 Let_def if_True if_False)
    also have "\<dots> = Done (BuildFrame wb (mkFrame MsgTypeData (take (nat ?k) p))
                       @ data_frames (chunks (nat m) (drop (nat ?k) p)))"
      using "1.IH" [OF lp refl nk0] "1.prems" by simp
    also have "BuildFrame wb (mkFrame MsgTypeData (take (nat ?k) p))
                 @ data_frames (chunks (nat m) (drop (nat ?k) p))
               = wb @ data_frames (chunks (nat m) p)"
      using False "1.prems" nk
      by (simp add: chunks_Cons [of "nat m" p] data_frames_def BuildFrame_Nil [of wb])
    finally show ?thesis .
  qed
qed

lemma chunks_props:
  "0 < m \<Longrightarrow> concat (chunks m p) = p \<and> (\<forall>d \<in> set (chunks m p). 0 < length d \<and> length d \<le> m)"
proof (induction m p rule: chunks.induct)
  case (1 m p)
  show ?case
  proof (cases "p = []")
    case True
    then show ?thesis by (simp add: chunks_Nil)
  next
    case False
    with "1.IH" "1.prems" show ?thesis
      by (simp add: chunks_Cons [of m p])
  qed
qed

lemma Write_loop_Done:
  assumes "Write_loop m wb p = Done wb'"
  shows "\<exists>ds. wb' = wb @ data_frames ds \<and> concat ds = p
            \<and> (\<forall>d \<in> set ds. 0 < length d \<and> int (length d) \<le> m)"
proof (cases "0 < m")
  case True
  with assms Write_loop_chunks [of m wb p] chunks_props [of "nat m" p]
  show ?thesis by (intro exI [of _ "chunks (nat m) p"]) auto
next
  case False
  have "p = []"
  proof (rule ccontr)
    assume ne: "p \<noteq> []"
    then have "min (int (length p)) m \<le> 0" using False by simp
    then have "Write_loop m wb p = Panics \<or> Write_loop m wb p = Loops"
      using ne by (simp add: Write_loop.simps [of m wb p] Let_def)
    with assms show False by auto
  qed
  with assms have "p = [] \<and> wb' = wb" by (simp add: Write_loop_Nil)
  then show ?thesis by (intro exI [of _ "[]"]) (simp add: data_frames_def)
qed


lemma seal_all_append:
  "seal_all A nh ps = Some (ss, nh1) \<Longrightarrow> seal_all A nh1 qs = Some (ts, nh2) \<Longrightarrow>
   seal_all A nh (ps @ qs) = Some (ss @ ts, nh2)"
proof (induction ps arbitrary: nh ss)
  case Nil
  then show ?case by simp
next
  case (Cons p ps)
  from Cons.prems(1) obtain sealed nh' ss' where
    sd: "SealData A nh p = Done (Inr sealed, nh')" and
    r: "seal_all A nh' ps = Some (ss', nh1)" and ss: "ss = sealed # ss'"
    by (auto split: run.splits prod.splits sum.splits option.splits)
  from Cons.IH [OF r Cons.prems(2)] show ?case by (simp add: sd ss)
qed

lemma seal_all_one:
  "SealData A nh p = Done (Inr sealed, nh') \<Longrightarrow> seal_all A nh [p] = Some ([sealed], nh')"
  by simp

text \<open>
  What one iteration of \<open>flush\<close> takes out of the write buffer: the plaintext of the chunk
  it hands to \<open>WriteRaw\<close>, unless that chunk is a ROTATE frame; and, when sealing fails,
  the plaintext that was not sealed (\<open>lost\<close>).
\<close>

lemma flush_data_taken:
  assumes "flush_data A now m c = Done st"
  shows "\<exists>new items lost nh'.
       WriteRaw_log (transport (fconn st)) = WriteRaw_log (transport c) @ new
     \<and> seal_all A (noise c) (map snd items) = Some (map fst new, nh')
     \<and> (\<forall>i \<in> set items. fst i \<longrightarrow> snd i = BuildFrame [] (mkFrame MsgTypeRotate []))
     \<and> bufWrite c = concat (map snd (filter (\<lambda>i. \<not> fst i) items)) @ lost @ bufWrite (fconn st)
     \<and> (lost \<noteq> [] \<longrightarrow> new = [])
     \<and> (\<forall>c1. st = FCont c1 \<longrightarrow> noise c1 = nh' \<and> lost = [] \<and> (\<forall>x \<in> set new. snd x = None))"
proof -
  let ?k = "nat (min (int (length (bufWrite c))) m)"
  let ?pt = "take ?k (bufWrite c)"
  from flush_data_Done [OF assms] obtain res nh where
    sd: "SealData A (noise c) ?pt = Done (res, nh)" and
    cse: "case res of
          Inl err \<Rightarrow> st = FStop (Some err) (c\<lparr>bufWrite := drop ?k (bufWrite c), noise := nh\<rparr>)
        | Inr sealed \<Rightarrow>
            (\<exists>w t. WriteRaw (transport c) sealed = Done (w, t)
               \<and> (case w of
                    Some err \<Rightarrow>
                      st = FStop (Some err)
                        (c\<lparr>bufWrite := drop ?k (bufWrite c), noise := nh, transport := t\<rparr>)
                  | None \<Rightarrow>
                      st = FCont
                        (c\<lparr>bufWrite := drop ?k (bufWrite c), noise := nh, transport := t,
                           lastActive := now\<rparr>)))"
    by blast
  show ?thesis
  proof (cases res)
    case (Inl err)
    with cse have st: "st = FStop (Some err) (c\<lparr>bufWrite := drop ?k (bufWrite c), noise := nh\<rparr>)"
      by simp
    show ?thesis
      by (intro exI [of _ "[]"] exI [of _ ?pt] exI [of _ "noise c"]) (simp add: st)
  next
    case (Inr sealed)
    with cse obtain w t where wr: "WriteRaw (transport c) sealed = Done (w, t)" and
      cw: "case w of
             Some err \<Rightarrow>
               st = FStop (Some err)
                 (c\<lparr>bufWrite := drop ?k (bufWrite c), noise := nh, transport := t\<rparr>)
           | None \<Rightarrow>
               st = FCont
                 (c\<lparr>bufWrite := drop ?k (bufWrite c), noise := nh, transport := t,
                    lastActive := now\<rparr>)"
      by auto
    from WriteRaw_Done [OF wr] have
      lg: "WriteRaw_log t = WriteRaw_log (transport c) @ [(sealed, w)]" by simp
    from sd Inr have sa: "seal_all A (noise c) [?pt] = Some ([sealed], nh)" by simp
    have f: "transport (fconn st) = t \<and> bufWrite (fconn st) = drop ?k (bufWrite c)
             \<and> noise (fconn st) = nh \<and> (\<forall>c1. st = FCont c1 \<longrightarrow> w = None)"
      using cw by (cases w) auto
    show ?thesis
      using f lg sa
      by (intro exI [of _ "[(sealed, w)]"] exI [of _ "[(False, ?pt)]"] exI [of _ "[]"]
          exI [of _ nh]) auto
  qed
qed

lemma flush_rotate_taken:
  assumes "flush_rotate A c = Done st"
  shows "\<exists>new items lost nh'.
       WriteRaw_log (transport (fconn st)) = WriteRaw_log (transport c) @ new
     \<and> seal_all A (noise c) (map snd items) = Some (map fst new, nh')
     \<and> (\<forall>i \<in> set items. fst i \<longrightarrow> snd i = BuildFrame [] (mkFrame MsgTypeRotate []))
     \<and> bufWrite c = concat (map snd (filter (\<lambda>i. \<not> fst i) items)) @ lost @ bufWrite (fconn st)
     \<and> (lost \<noteq> [] \<longrightarrow> new = [])
     \<and> (\<forall>c1. st = FCont c1 \<longrightarrow> noise c1 = nh' \<and> lost = [] \<and> (\<forall>x \<in> set new. snd x = None))"
proof -
  let ?pt = "BuildFrame [] (mkFrame MsgTypeRotate [])"
  from flush_rotate_Done [OF assms] obtain res nh where
    sd: "SealData A (noise c) ?pt = Done (res, nh)" and
    cse: "case res of
          Inl err \<Rightarrow> st = FStop (Some err) (c\<lparr>noise := nh\<rparr>)
        | Inr sealed \<Rightarrow>
            (\<exists>w t. WriteRaw (transport c) sealed = Done (w, t)
               \<and> (case w of
                    Some err \<Rightarrow> st = FStop (Some err) (c\<lparr>noise := nh, transport := t\<rparr>)
                  | None \<Rightarrow>
                      (\<exists>r rerr r'. rotator t = Some r \<and> RotateTX r = Done (rerr, r')
                         \<and> (case rerr of
                              Some err \<Rightarrow>
                                st = FStop (Some err)
                                  (c\<lparr>noise := nh, transport := t\<lparr>rotator := Some r'\<rparr>\<rparr>)
                            | None \<Rightarrow>
                                st = FCont
                                  (c\<lparr>noise := nh, transport := t\<lparr>rotator := Some r'\<rparr>\<rparr>)))))"
    by blast
  show ?thesis
  proof (cases res)
    case (Inl err)
    with cse have st: "st = FStop (Some err) (c\<lparr>noise := nh\<rparr>)" by simp
    show ?thesis
      by (intro exI [of _ "[]"] exI [of _ "noise c"]) (simp add: st)
  next
    case (Inr sealed)
    with cse obtain w t where wr: "WriteRaw (transport c) sealed = Done (w, t)" and
      cw: "case w of
             Some err \<Rightarrow> st = FStop (Some err) (c\<lparr>noise := nh, transport := t\<rparr>)
           | None \<Rightarrow>
               (\<exists>r rerr r'. rotator t = Some r \<and> RotateTX r = Done (rerr, r')
                  \<and> (case rerr of
                       Some err \<Rightarrow>
                         st = FStop (Some err)
                           (c\<lparr>noise := nh, transport := t\<lparr>rotator := Some r'\<rparr>\<rparr>)
                     | None \<Rightarrow>
                         st = FCont
                           (c\<lparr>noise := nh, transport := t\<lparr>rotator := Some r'\<rparr>\<rparr>)))"
      by auto
    from WriteRaw_Done [OF wr] have
      lg: "WriteRaw_log t = WriteRaw_log (transport c) @ [(sealed, w)]" by simp
    from sd Inr have sa: "seal_all A (noise c) [?pt] = Some ([sealed], nh)" by simp
    have f: "WriteRaw_log (transport (fconn st)) = WriteRaw_log t
             \<and> bufWrite (fconn st) = bufWrite c
             \<and> noise (fconn st) = nh \<and> (\<forall>c1. st = FCont c1 \<longrightarrow> w = None)"
      using cw by (cases w) (auto split: option.splits)
    show ?thesis
      using f lg sa
      by (intro exI [of _ "[(sealed, w)]"] exI [of _ "[(True, ?pt)]"] exI [of _ "[]"]
          exI [of _ nh]) auto
  qed
qed

lemma flush_step_taken:
  assumes "flush_step A now c = Done st"
  shows "\<exists>new items lost nh'.
       WriteRaw_log (transport (fconn st)) = WriteRaw_log (transport c) @ new
     \<and> seal_all A (noise c) (map snd items) = Some (map fst new, nh')
     \<and> (\<forall>i \<in> set items. fst i \<longrightarrow> snd i = BuildFrame [] (mkFrame MsgTypeRotate []))
     \<and> bufWrite c = concat (map snd (filter (\<lambda>i. \<not> fst i) items)) @ lost @ bufWrite (fconn st)
     \<and> (lost \<noteq> [] \<longrightarrow> new = [])
     \<and> (\<forall>c1. st = FCont c1 \<longrightarrow> noise c1 = nh' \<and> lost = [] \<and> (\<forall>x \<in> set new. snd x = None))"
proof (cases "length (bufWrite c) = 0")
  case True
  with assms have "st = FStop None c" by (simp add: flush_step_def)
  then show ?thesis
    by (intro exI [of _ "[]"] exI [of _ "noise c"]) simp
next
  case False
  show ?thesis
  proof (cases "rotator (transport c)")
    case None
    with assms False
    have "flush_data A now (MaxRawSize (transport c) - NoiseOverhead) c = Done st"
      by (simp add: flush_step_def Let_def)
    then show ?thesis by (rule flush_data_taken)
  next
    case (Some rt)
    with assms False obtain b rt' where
      st': "(if b then flush_rotate A (c\<lparr>transport := (transport c)\<lparr>rotator := Some rt'\<rparr>\<rparr>)
           else flush_data A now (MaxRawSize (transport c) - NoiseOverhead)
                  (c\<lparr>transport := (transport c)\<lparr>rotator := Some rt'\<rparr>\<rparr>)) = Done st"
      by (auto simp: flush_step_def Let_def run_bind_def split: run.splits prod.splits)
    let ?c' = "c\<lparr>transport := (transport c)\<lparr>rotator := Some rt'\<rparr>\<rparr>"
    have e: "bufWrite ?c' = bufWrite c" "WriteRaw_log (transport ?c') = WriteRaw_log (transport c)"
      "noise ?c' = noise c"
      by simp_all
    show ?thesis
    proof (cases b)
      case True
      with st' have "flush_rotate A ?c' = Done st" by simp
      from flush_rotate_taken [OF this, unfolded e] show ?thesis .
    next
      case False
      with st' have "flush_data A now (MaxRawSize (transport c) - NoiseOverhead) ?c' = Done st"
        by simp
      from flush_data_taken [OF this, unfolded e] show ?thesis .
    qed
  qed
qed

text \<open>
  What a \<open>flush\<close> that returns has taken out of the write buffer: the plaintexts of the
  chunks it handed to \<open>WriteRaw\<close>, the ROTATE frames apart, in order; and, when sealing
  failed, the plaintext that was not sealed.
\<close>

lemma flush_taken:
  assumes "flush A now c = Done (res, c')"
  shows "\<exists>new items lost nh'.
       WriteRaw_log (transport c') = WriteRaw_log (transport c) @ new
     \<and> seal_all A (noise c) (map snd items) = Some (map fst new, nh')
     \<and> (\<forall>i \<in> set items. fst i \<longrightarrow> snd i = BuildFrame [] (mkFrame MsgTypeRotate []))
     \<and> bufWrite c = concat (map snd (filter (\<lambda>i. \<not> fst i) items)) @ lost @ bufWrite c'
     \<and> (lost \<noteq> [] \<longrightarrow> (\<forall>x \<in> set new. snd x = None))"
  using assms
proof (induction A now c rule: flush.induct)
  case (1 A now c)
  show ?case
  proof (cases "flush_step A now c")
    case (Done st)
    from flush_step_taken [OF Done] obtain new1 items1 lost1 nh1 where
      s: "WriteRaw_log (transport (fconn st)) = WriteRaw_log (transport c) @ new1"
        "seal_all A (noise c) (map snd items1) = Some (map fst new1, nh1)"
        "\<forall>i \<in> set items1. fst i \<longrightarrow> snd i = BuildFrame [] (mkFrame MsgTypeRotate [])"
        "bufWrite c = concat (map snd (filter (\<lambda>i. \<not> fst i) items1)) @ lost1
                       @ bufWrite (fconn st)"
        "lost1 \<noteq> [] \<longrightarrow> new1 = []"
        "\<forall>c1. st = FCont c1 \<longrightarrow> noise c1 = nh1 \<and> lost1 = [] \<and> (\<forall>x \<in> set new1. snd x = None)"
      by blast
    show ?thesis
    proof (cases st)
      case (FStop e c1)
      with Done "1.prems" have c1: "c' = c1" by (simp add: flush.simps [of A now c])
      from s(5) have "lost1 \<noteq> [] \<longrightarrow> (\<forall>x \<in> set new1. snd x = None)" by auto
      with s(1-4) FStop c1 show ?thesis
        by (intro exI [of _ new1] exI [of _ items1] exI [of _ lost1] exI [of _ nh1]) simp
    next
      case (FCont c1)
      with Done "1.prems" have fl: "flush A now c1 = Done (res, c')"
        by (simp add: flush.simps [of A now c])
      from s(6) FCont have n1: "noise c1 = nh1" and l1: "lost1 = []"
        and ok1: "\<forall>x \<in> set new1. snd x = None" by simp_all
      from "1.IH" [OF Done FCont fl] obtain new2 items2 lost2 nh2 where
        t: "WriteRaw_log (transport c') = WriteRaw_log (transport c1) @ new2"
          "seal_all A (noise c1) (map snd items2) = Some (map fst new2, nh2)"
          "\<forall>i \<in> set items2. fst i \<longrightarrow> snd i = BuildFrame [] (mkFrame MsgTypeRotate [])"
          "bufWrite c1 = concat (map snd (filter (\<lambda>i. \<not> fst i) items2)) @ lost2 @ bufWrite c'"
          "lost2 \<noteq> [] \<longrightarrow> (\<forall>x \<in> set new2. snd x = None)"
        by blast
      from t(2) have t2: "seal_all A nh1 (map snd items2) = Some (map fst new2, nh2)"
        by (simp only: n1)
      have sa: "seal_all A (noise c) (map snd (items1 @ items2))
                = Some (map fst (new1 @ new2), nh2)"
        using seal_all_append [OF s(2) t2] by simp
      have lg: "WriteRaw_log (transport c') = WriteRaw_log (transport c) @ (new1 @ new2)"
        using s(1) t(1) FCont by simp
      have bw: "bufWrite c = concat (map snd (filter (\<lambda>i. \<not> fst i) (items1 @ items2)))
                  @ lost2 @ bufWrite c'"
        using s(4) t(4) FCont l1 by simp
      have rt: "\<forall>i \<in> set (items1 @ items2).
                  fst i \<longrightarrow> snd i = BuildFrame [] (mkFrame MsgTypeRotate [])"
        using s(3) t(3) by auto
      have ok: "lost2 \<noteq> [] \<longrightarrow> (\<forall>x \<in> set (new1 @ new2). snd x = None)"
        using ok1 t(5) by auto
      from lg sa rt bw ok show ?thesis
        by (intro exI [of _ "new1 @ new2"] exI [of _ "items1 @ items2"] exI [of _ lost2]
            exI [of _ nh2]) simp
    qed
  qed (use "1.prems" in \<open>simp_all add: flush.simps [of A now c]\<close>)
qed

text \<open>
  What a failed raw write means for a \<open>flush\<close> and for a \<open>Write\<close> that return.
\<close>

lemma flush_failed_write:
  assumes "flush A now c = Done (res, c')"
  shows "\<exists>new. WriteRaw_log (transport c') = WriteRaw_log (transport c) @ new
           \<and> (\<forall>chunk err. (chunk, Some err) \<in> set new \<longrightarrow>
                  res = Some err \<and> last new = (chunk, Some err)
                  \<and> (\<exists>items nh'.
                        seal_all A (noise c) (map snd items) = Some (map fst new, nh')
                      \<and> (\<forall>i \<in> set items.
                            fst i \<longrightarrow> snd i = BuildFrame [] (mkFrame MsgTypeRotate []))
                      \<and> bufWrite c
                          = concat (map snd (filter (\<lambda>i. \<not> fst i) items)) @ bufWrite c'))"
    and "\<exists>k. bufWrite c' = drop k (bufWrite c)"
proof -
  from flush_spec [OF assms] obtain new where
    a: "WriteRaw_log (transport c') = WriteRaw_log (transport c) @ new"
      "\<forall>chunk err. (chunk, Some err) \<in> set new \<longrightarrow> res = Some err \<and> last new = (chunk, Some err)"
    by blast
  from flush_taken [OF assms] obtain new' items lost nh' where
    b: "WriteRaw_log (transport c') = WriteRaw_log (transport c) @ new'"
      "seal_all A (noise c) (map snd items) = Some (map fst new', nh')"
      "\<forall>i \<in> set items. fst i \<longrightarrow> snd i = BuildFrame [] (mkFrame MsgTypeRotate [])"
      "bufWrite c = concat (map snd (filter (\<lambda>i. \<not> fst i) items)) @ lost @ bufWrite c'"
      "lost \<noteq> [] \<longrightarrow> (\<forall>x \<in> set new'. snd x = None)"
    by blast
  from a(1) b(1) have n: "new' = new" by simp
  have "\<forall>chunk err. (chunk, Some err) \<in> set new \<longrightarrow>
                  res = Some err \<and> last new = (chunk, Some err)
                  \<and> (\<exists>items nh'.
                        seal_all A (noise c) (map snd items) = Some (map fst new, nh')
                      \<and> (\<forall>i \<in> set items.
                            fst i \<longrightarrow> snd i = BuildFrame [] (mkFrame MsgTypeRotate []))
                      \<and> bufWrite c
                          = concat (map snd (filter (\<lambda>i. \<not> fst i) items)) @ bufWrite c')"
  proof (intro allI impI)
    fix chunk err assume m: "(chunk, Some err) \<in> set new"
    with b(5) n have "lost = []" by force
    with b(2,3,4) n have "\<exists>items nh'.
                        seal_all A (noise c) (map snd items) = Some (map fst new, nh')
                      \<and> (\<forall>i \<in> set items.
                            fst i \<longrightarrow> snd i = BuildFrame [] (mkFrame MsgTypeRotate []))
                      \<and> bufWrite c
                          = concat (map snd (filter (\<lambda>i. \<not> fst i) items)) @ bufWrite c'"
      by (intro exI [of _ items] exI [of _ nh']) simp
    with a(2) m show "res = Some err \<and> last new = (chunk, Some err)
                  \<and> (\<exists>items nh'.
                        seal_all A (noise c) (map snd items) = Some (map fst new, nh')
                      \<and> (\<forall>i \<in> set items.
                            fst i \<longrightarrow> snd i = BuildFrame [] (mkFrame MsgTypeRotate []))
                      \<and> bufWrite c
                          = concat (map snd (filter (\<lambda>i. \<not> fst i) items)) @ bufWrite c')"
      by blast
  qed
  with a(1) show "\<exists>new. WriteRaw_log (transport c') = WriteRaw_log (transport c) @ new
           \<and> (\<forall>chunk err. (chunk, Some err) \<in> set new \<longrightarrow>
                  res = Some err \<and> last new = (chunk, Some err)
                  \<and> (\<exists>items nh'.
                        seal_all A (noise c) (map snd items) = Some (map fst new, nh')
                      \<and> (\<forall>i \<in> set items.
                            fst i \<longrightarrow> snd i = BuildFrame [] (mkFrame MsgTypeRotate []))
                      \<and> bufWrite c
                          = concat (map snd (filter (\<lambda>i. \<not> fst i) items)) @ bufWrite c'))"
    by blast
  from flush_spec [OF assms] show "\<exists>k. bufWrite c' = drop k (bufWrite c)" by blast
qed

lemma Write_failed_write:
  assumes "Write A now d p = Done ((n, r), d')"
  shows "(r \<noteq> None \<longrightarrow> n = 0)
       \<and> (\<exists>new. WriteRaw_log (transport d') = WriteRaw_log (transport d) @ new
           \<and> (\<forall>chunk err. (chunk, Some err) \<in> set new \<longrightarrow>
                  r = Some err \<and> n = 0
                  \<and> (\<exists>wb items nh'.
                        Write_loop (mtu d) (bufWrite d) p = Done wb
                      \<and> seal_all A (noise d) (map snd items) = Some (map fst new, nh')
                      \<and> (\<forall>i \<in> set items.
                            fst i \<longrightarrow> snd i = BuildFrame [] (mkFrame MsgTypeRotate []))
                      \<and> wb = concat (map snd (filter (\<lambda>i. \<not> fst i) items)) @ bufWrite d')))"
proof (cases "closed d \<or> closedWrite d \<or> deadline_passed (writeDeadline d) now")
  case True
  with assms have "d' = d \<and> n = 0"
    by (auto simp: Write_def split: if_splits)
  then show ?thesis by (intro conjI exI [of _ "[]"]) auto
next
  case False
  with assms obtain wb err where
    wl: "Write_loop (mtu d) (bufWrite d) p = Done wb" and
    f: "flush A now (d\<lparr>bufWrite := wb\<rparr>) = Done (err, d')" and
    nr: "(n, r) = (case err of Some e \<Rightarrow> (0, Some e) | None \<Rightarrow> (int (length p), None))"
    by (auto simp: Write_def Let_def run_bind_def split: run.splits option.splits)
  from nr have e: "r = err" "r \<noteq> None \<longrightarrow> n = 0" by (cases err; simp)+
  from flush_failed_write(1) [OF f] obtain new where
    g: "WriteRaw_log (transport d') = WriteRaw_log (transport d) @ new"
      "\<forall>chunk er. (chunk, Some er) \<in> set new \<longrightarrow>
                err = Some er \<and> last new = (chunk, Some er)
                \<and> (\<exists>items nh'.
                      seal_all A (noise d) (map snd items) = Some (map fst new, nh')
                    \<and> (\<forall>i \<in> set items.
                          fst i \<longrightarrow> snd i = BuildFrame [] (mkFrame MsgTypeRotate []))
                    \<and> wb = concat (map snd (filter (\<lambda>i. \<not> fst i) items)) @ bufWrite d')"
    by auto
  have "\<forall>chunk er. (chunk, Some er) \<in> set new \<longrightarrow>
                r = Some er \<and> n = 0
                \<and> (\<exists>wb items nh'.
                      Write_loop (mtu d) (bufWrite d) p = Done wb
                    \<and> seal_all A (noise d) (map snd items) = Some (map fst new, nh')
                    \<and> (\<forall>i \<in> set items.
                          fst i \<longrightarrow> snd i = BuildFrame [] (mkFrame MsgTypeRotate []))
                    \<and> wb = concat (map snd (filter (\<lambda>i. \<not> fst i) items)) @ bufWrite d')"
  proof (intro allI impI)
    fix chunk er assume m: "(chunk, Some er) \<in> set new"
    with g(2) have x: "err = Some er" and
      y: "\<exists>items nh'.
                      seal_all A (noise d) (map snd items) = Some (map fst new, nh')
                    \<and> (\<forall>i \<in> set items.
                          fst i \<longrightarrow> snd i = BuildFrame [] (mkFrame MsgTypeRotate []))
                    \<and> wb = concat (map snd (filter (\<lambda>i. \<not> fst i) items)) @ bufWrite d'"
      by blast+
    from x e have "r = Some er" "n = 0" by simp_all
    with wl y show "r = Some er \<and> n = 0
                \<and> (\<exists>wb items nh'.
                      Write_loop (mtu d) (bufWrite d) p = Done wb
                    \<and> seal_all A (noise d) (map snd items) = Some (map fst new, nh')
                    \<and> (\<forall>i \<in> set items.
                          fst i \<longrightarrow> snd i = BuildFrame [] (mkFrame MsgTypeRotate []))
                    \<and> wb = concat (map snd (filter (\<lambda>i. \<not> fst i) items)) @ bufWrite d')"
      by blast
  qed
  with e(2) g(1) show ?thesis by blast
qed

lemma SealData_returns:
  assumes "send_cs nh \<noteq> None"
  shows "\<exists>res nh'. SealData A nh p = Done (res, nh') \<and> send_cs nh' \<noteq> None"
proof -
  from assms obtain s where s: "send_cs nh = Some s" by auto
  obtain r s' where e: "Encrypt A s p = (r, s')" by (cases "Encrypt A s p")
  let ?nh' = "if isInitiator nh then nh\<lparr>cs1 := Some s'\<rparr> else nh\<lparr>cs2 := Some s'\<rparr>"
  have c: "send_cs ?nh' \<noteq> None" by (simp add: send_cs_def)
  from EncryptData_send [OF s e] have "EncryptData A nh p = Done (r, ?nh')" .
  then have "\<exists>res. SealData A nh p = Done (res, ?nh')"
    by (cases r) (simp_all add: SealData_def)
  with c show ?thesis by blast
qed

lemma flush_ready_bufWrite: "flush_ready (c\<lparr>bufWrite := wb\<rparr>) = flush_ready c"
  by (simp add: flush_ready_def)

lemma flush_midD:
  assumes "flush_mid c"
  shows "send_cs (noise c) \<noteq> None" "NoiseOverhead \<le> MaxRawSize (transport c)"
    "length (takeWhile (\<lambda>w. w = None) (WriteRaw_script (transport c)))
       < length (WriteRaw_script (transport c))"
    "rotator (transport c) = Some r \<Longrightarrow>
       length (takeWhile (\<lambda>w. w = None) (WriteRaw_script (transport c)))
         \<le> length (ShouldRotate_script r)
       \<and> length (takeWhile (\<lambda>w. w = None) (WriteRaw_script (transport c)))
         \<le> length (RotateTX_script r)"
  using assms by (simp_all add: flush_mid_def Let_def)

lemma flush_readyI:
  assumes "send_cs (noise c) \<noteq> None" "NoiseOverhead \<le> MaxRawSize (transport c)"
    "length (takeWhile (\<lambda>w. w = None) (WriteRaw_script (transport c)))
       < length (WriteRaw_script (transport c))"
    "\<And>r. rotator (transport c) = Some r \<Longrightarrow>
       length (takeWhile (\<lambda>w. w = None) (WriteRaw_script (transport c)))
         < length (ShouldRotate_script r)
       \<and> length (takeWhile (\<lambda>w. w = None) (WriteRaw_script (transport c)))
         \<le> length (RotateTX_script r)"
  shows "flush_ready c"
  using assms by (cases "rotator (transport c)") (simp_all add: flush_ready_def Let_def)

text \<open>
  The two branches of an iteration of \<open>flush\<close> return, and the connection with which the
  loop goes on is again such a connection.
\<close>

lemma flush_data_mid:
  assumes "flush_mid c"
  shows "\<exists>st. flush_data A now (MaxRawSize (transport c) - NoiseOverhead) c = Done st
           \<and> (\<forall>c1. st = FCont c1 \<longrightarrow> flush_ready c1)"
proof -
  let ?m = "MaxRawSize (transport c) - NoiseOverhead"
  let ?k = "min (int (length (bufWrite c))) ?m"
  let ?ws = "WriteRaw_script (transport c)"
  note d = flush_midD [OF assms]
  have k0: "\<not> ?k < 0" using d(2) by simp
  from SealData_returns [OF d(1), of A "take (nat ?k) (bufWrite c)"] obtain res nh where
    sd: "SealData A (noise c) (take (nat ?k) (bufWrite c)) = Done (res, nh)" and
    sc': "send_cs nh \<noteq> None"
    by blast
  from d(3) obtain w rs where ws: "?ws = w # rs" by (cases ?ws) auto
  show ?thesis
  proof (cases res)
    case (Inl err)
    with sd k0 show ?thesis
      by (simp add: flush_data_def Let_def Next_def run_bind_def)
  next
    case (Inr sealed)
    show ?thesis
    proof (cases w)
      case (Some err)
      with sd k0 Inr ws show ?thesis
        by (simp add: flush_data_def Let_def Next_def run_bind_def WriteRaw_def)
    next
      case None
      let ?c1 = "c\<lparr>bufWrite := drop (nat ?k) (bufWrite c), noise := nh,
                   transport := (transport c)
                     \<lparr>WriteRaw_script := rs,
                      WriteRaw_log := WriteRaw_log (transport c) @ [(sealed, None)]\<rparr>,
                   lastActive := now\<rparr>"
      have st: "flush_data A now ?m c = Done (FCont ?c1)"
        using sd k0 Inr ws None
        by (simp add: flush_data_def Let_def Next_def run_bind_def WriteRaw_def)
      have tw: "length (takeWhile (\<lambda>w. w = None) ?ws)
                = Suc (length (takeWhile (\<lambda>w. w = None) rs))"
        by (simp add: ws None)
      have lw: "length ?ws = Suc (length rs)" by (simp add: ws)
      have "flush_ready ?c1"
      proof (rule flush_readyI)
        show "send_cs (noise ?c1) \<noteq> None" using sc' by simp
        show "NoiseOverhead \<le> MaxRawSize (transport ?c1)" using d(2) by simp
        show "length (takeWhile (\<lambda>w. w = None) (WriteRaw_script (transport ?c1)))
                < length (WriteRaw_script (transport ?c1))"
          using d(3) tw lw by simp
      next
        fix r assume "rotator (transport ?c1) = Some r"
        then have "rotator (transport c) = Some r" by simp
        from d(4) [OF this] tw
        show "length (takeWhile (\<lambda>w. w = None) (WriteRaw_script (transport ?c1)))
                < length (ShouldRotate_script r)
              \<and> length (takeWhile (\<lambda>w. w = None) (WriteRaw_script (transport ?c1)))
                \<le> length (RotateTX_script r)"
          by simp
      qed
      with st show ?thesis by simp
    qed
  qed
qed

lemma flush_rotate_mid:
  assumes "flush_mid c" "rotator (transport c) = Some r"
  shows "\<exists>st. flush_rotate A c = Done st \<and> (\<forall>c1. st = FCont c1 \<longrightarrow> flush_ready c1)"
proof -
  let ?ws = "WriteRaw_script (transport c)"
  let ?pt = "BuildFrame [] (mkFrame MsgTypeRotate [])"
  note d = flush_midD(1-3) [OF assms(1)] flush_midD(4) [OF assms]
  from SealData_returns [OF d(1), of A ?pt] obtain res nh where
    sd: "SealData A (noise c) ?pt = Done (res, nh)" and sc': "send_cs nh \<noteq> None"
    by blast
  from d(3) obtain w rs where ws: "?ws = w # rs" by (cases ?ws) auto
  show ?thesis
  proof (cases res)
    case (Inl err)
    with sd show ?thesis by (simp add: flush_rotate_def Let_def run_bind_def)
  next
    case (Inr sealed)
    show ?thesis
    proof (cases w)
      case (Some err)
      with sd Inr ws show ?thesis
        by (simp add: flush_rotate_def Let_def run_bind_def WriteRaw_def)
    next
      case None
      have tw: "length (takeWhile (\<lambda>w. w = None) ?ws)
                = Suc (length (takeWhile (\<lambda>w. w = None) rs))"
        by (simp add: ws None)
      have lw: "length ?ws = Suc (length rs)" by (simp add: ws)
      from d(4) tw have "Suc (length (takeWhile (\<lambda>w. w = None) rs))
                \<le> length (RotateTX_script r)" by simp
      then obtain e es where tx: "RotateTX_script r = e # es"
        and les: "length (takeWhile (\<lambda>w. w = None) rs) \<le> length es"
        by (cases "RotateTX_script r") auto
      show ?thesis
      proof (cases e)
        case (Some err)
        with sd Inr ws None tx assms(2) show ?thesis
          by (simp add: flush_rotate_def Let_def run_bind_def WriteRaw_def RotateTX_def)
      next
        case None': None
        let ?c1 = "c\<lparr>noise := nh,
                     transport := (transport c)
                       \<lparr>WriteRaw_script := rs,
                        WriteRaw_log := WriteRaw_log (transport c) @ [(sealed, None)],
                        rotator := Some (r\<lparr>RotateTX_script := es\<rparr>)\<rparr>\<rparr>"
        have st: "flush_rotate A c = Done (FCont ?c1)"
          using sd Inr ws None tx assms(2) None'
          by (simp add: flush_rotate_def Let_def run_bind_def WriteRaw_def RotateTX_def)
        have "flush_ready ?c1"
        proof (rule flush_readyI)
          show "send_cs (noise ?c1) \<noteq> None" using sc' by simp
          show "NoiseOverhead \<le> MaxRawSize (transport ?c1)" using d(2) by simp
          show "length (takeWhile (\<lambda>w. w = None) (WriteRaw_script (transport ?c1)))
                  < length (WriteRaw_script (transport ?c1))"
            using d(3) tw lw by simp
        next
          fix r' assume "rotator (transport ?c1) = Some r'"
          then have r': "r' = r\<lparr>RotateTX_script := es\<rparr>" by simp
          from d(4) tw les
          show "length (takeWhile (\<lambda>w. w = None) (WriteRaw_script (transport ?c1)))
                  < length (ShouldRotate_script r')
                \<and> length (takeWhile (\<lambda>w. w = None) (WriteRaw_script (transport ?c1)))
                  \<le> length (RotateTX_script r')"
            by (simp add: r')
        qed
        with st show ?thesis by simp
      qed
    qed
  qed
qed

lemma flush_step_ready:
  assumes "flush_ready c"
  shows "\<exists>st. flush_step A now c = Done st \<and> (\<forall>c1. st = FCont c1 \<longrightarrow> flush_ready c1)"
proof (cases "length (bufWrite c) = 0")
  case True
  then show ?thesis by (simp add: flush_step_def)
next
  case False
  from assms have sc: "send_cs (noise c) \<noteq> None" and mx: "NoiseOverhead \<le> MaxRawSize (transport c)"
    and aw: "length (takeWhile (\<lambda>w. w = None) (WriteRaw_script (transport c)))
              < length (WriteRaw_script (transport c))"
    by (simp_all add: flush_ready_def Let_def)
  show ?thesis
  proof (cases "rotator (transport c)")
    case None
    with assms have "flush_mid c" by (simp add: flush_ready_def flush_mid_def)
    from flush_data_mid [OF this, of A now] None False show ?thesis
      by (simp add: flush_step_def Let_def)
  next
    case (Some r)
    with assms have
      sr: "length (takeWhile (\<lambda>w. w = None) (WriteRaw_script (transport c)))
             < length (ShouldRotate_script r)" and
      tx: "length (takeWhile (\<lambda>w. w = None) (WriteRaw_script (transport c)))
             \<le> length (RotateTX_script r)"
      by (simp_all add: flush_ready_def Let_def)
    from sr obtain b bs where bs: "ShouldRotate_script r = b # bs"
      by (cases "ShouldRotate_script r") auto
    let ?r' = "r\<lparr>ShouldRotate_script := bs\<rparr>"
    let ?c1 = "c\<lparr>transport := (transport c)\<lparr>rotator := Some ?r'\<rparr>\<rparr>"
    have mid: "flush_mid ?c1"
      using sc mx aw sr tx by (simp add: flush_mid_def Let_def bs)
    have rt: "rotator (transport ?c1) = Some ?r'" by simp
    have m: "MaxRawSize (transport ?c1) = MaxRawSize (transport c)" by simp
    have st: "flush_step A now c
              = (if b then flush_rotate A ?c1
                 else flush_data A now (MaxRawSize (transport c) - NoiseOverhead) ?c1)"
      using False Some bs by (simp add: flush_step_def Let_def ShouldRotate_def run_bind_def)
    show ?thesis
    proof (cases b)
      case True
      with flush_rotate_mid [OF mid rt, of A] st show ?thesis by simp
    next
      case False
      with flush_data_mid [OF mid, of A now] st m show ?thesis by simp
    qed
  qed
qed

text \<open>On such a connection \<open>flush\<close> returns.\<close>

lemma flush_returns:
  assumes "flush_ready c"
  shows "\<exists>res c'. flush A now c = Done (res, c')"
  using assms
proof (induction A now c rule: flush.induct)
  case (1 A now c)
  from flush_step_ready [OF "1.prems", of A now] obtain st where
    st: "flush_step A now c = Done st" and nx: "\<forall>c1. st = FCont c1 \<longrightarrow> flush_ready c1"
    by blast
  show ?case
  proof (cases st)
    case (FStop e c1)
    with st show ?thesis by (simp add: flush.simps [of A now c])
  next
    case (FCont c1)
    with nx have "flush_ready c1" by simp
    from "1.IH" [OF st FCont this] FCont st show ?thesis
      by (simp add: flush.simps [of A now c])
  qed
qed

lemma Write_returns:
  assumes "flush_ready d" "p = [] \<or> 0 < mtu d"
  shows "\<exists>n r d'. Write A now d p = Done ((n, r), d')"
proof (cases "closed d \<or> closedWrite d \<or> deadline_passed (writeDeadline d) now")
  case True
  then show ?thesis by (auto simp: Write_def)
next
  case False
  from assms(2) obtain wb where wl: "Write_loop (mtu d) (bufWrite d) p = Done wb"
    using Write_loop_chunks [of "mtu d" "bufWrite d" p] Write_loop_Nil [of "mtu d" "bufWrite d"]
    by auto
  from assms(1) have "flush_ready (d\<lparr>bufWrite := wb\<rparr>)" by (simp only: flush_ready_bufWrite)
  from flush_returns [OF this, of A now] obtain res d' where
    "flush A now (d\<lparr>bufWrite := wb\<rparr>) = Done (res, d')" by blast
  with False wl show ?thesis
    by (cases res) (simp_all add: Write_def Let_def run_bind_def)
qed

text \<open>
  C7 (as amended).  On a connection whose session can seal, whose raw unit has room for
  the overhead of a chunk and whose driver fails a raw write before the rotator runs out
  of answers (\<open>flush_ready\<close>), \<open>flush\<close> returns, and so does \<open>Write\<close>.  Whenever \<open>flush\<close>
  returns: a raw write that failed during it is the last raw write of this \<open>flush\<close> and
  \<open>flush\<close> returns its error; and then the write buffer as it was before is, byte for
  byte, the plaintexts of the chunks handed to \<open>WriteRaw\<close> during this \<open>flush\<close> (the one
  handed to the failing write included, the ROTATE frames apart), in order, followed by
  the write buffer afterwards: every byte that was not handed to a raw write is still
  buffered, in place.  Whenever \<open>Write\<close> returns an error it returns the count 0, and this
  is what it returns when a raw write fails during its flush, the buffer it had filled
  being kept in the same way.
\<close>

theorem flush_failure:
  "(flush_ready c \<longrightarrow> (\<exists>res c'. flush A now c = Done (res, c')))
   \<and> (\<forall>res c'. flush A now c = Done (res, c') \<longrightarrow>
         (\<exists>new. WriteRaw_log (transport c') = WriteRaw_log (transport c) @ new
           \<and> (\<forall>chunk err. (chunk, Some err) \<in> set new \<longrightarrow>
                  res = Some err \<and> last new = (chunk, Some err)
                  \<and> (\<exists>items nh'.
                        seal_all A (noise c) (map snd items) = Some (map fst new, nh')
                      \<and> (\<forall>i \<in> set items.
                            fst i \<longrightarrow> snd i = BuildFrame [] (mkFrame MsgTypeRotate []))
                      \<and> bufWrite c
                          = concat (map snd (filter (\<lambda>i. \<not> fst i) items)) @ bufWrite c')))
         \<and> (\<exists>k. bufWrite c' = drop k (bufWrite c)))
   \<and> (flush_ready d \<and> (p = [] \<or> 0 < mtu d) \<longrightarrow>
         (\<exists>n r d'. Write A now d p = Done ((n, r), d')))
   \<and> (\<forall>n r d'. Write A now d p = Done ((n, r), d') \<longrightarrow>
         (r \<noteq> None \<longrightarrow> n = 0)
         \<and> (\<exists>new. WriteRaw_log (transport d') = WriteRaw_log (transport d) @ new
             \<and> (\<forall>chunk err. (chunk, Some err) \<in> set new \<longrightarrow>
                    r = Some err \<and> n = 0
                    \<and> (\<exists>wb items nh'.
                          Write_loop (mtu d) (bufWrite d) p = Done wb
                        \<and> seal_all A (noise d) (map snd items) = Some (map fst new, nh')
                        \<and> (\<forall>i \<in> set items.
                              fst i \<longrightarrow> snd i = BuildFrame [] (mkFrame MsgTypeRotate []))
                        \<and> wb = concat (map snd (filter (\<lambda>i. \<not> fst i) items))
                                 @ bufWrite d'))))"
proof (intro conjI allI impI)
  assume "flush_ready c"
  then show "\<exists>res c'. flush A now c = Done (res, c')" by (rule flush_returns)
next
  fix res c' assume f: "flush A now c = Done (res, c')"
  from flush_failed_write(1) [OF f]
  show "\<exists>new. WriteRaw_log (transport c') = WriteRaw_log (transport c) @ new
           \<and> (\<forall>chunk err. (chunk, Some err) \<in> set new \<longrightarrow>
                  res = Some err \<and> last new = (chunk, Some err)
                  \<and> (\<exists>items nh'.
                        seal_all A (noise c) (map snd items) = Some (map fst new, nh')
                      \<and> (\<forall>i \<in> set items.
                            fst i \<longrightarrow> snd i = BuildFrame [] (mkFrame MsgTypeRotate []))
                      \<and> bufWrite c
                          = concat (map snd (filter (\<lambda>i. \<not> fst i) items)) @ bufWrite c'))" .
  from flush_failed_write(2) [OF f] show "\<exists>k. bufWrite c' = drop k (bufWrite c)" .
next
  assume "flush_ready d \<and> (p = [] \<or> 0 < mtu d)"
  then show "\<exists>n r d'. Write A now d p = Done ((n, r), d')"
    using Write_returns [of d p A now] by blast
next
  fix n r d' assume w: "Write A now d p = Done ((n, r), d')" and "r \<noteq> None"
  with Write_failed_write [OF w] show "n = 0" by blast
next
  fix n r d' assume w: "Write A now d p = Done ((n, r), d')"
  from Write_failed_write [OF w]
  show "\<exists>new. WriteRaw_log (transport d') = WriteRaw_log (transport d) @ new
             \<and> (\<forall>chunk err. (chunk, Some err) \<in> set new \<longrightarrow>
                    r = Some err \<and> n = 0
                    \<and> (\<exists>wb items nh'.
                          Write_loop (mtu d) (bufWrite d) p = Done wb
                        \<and> seal_all A (noise d) (map snd items) = Some (map fst new, nh')
                        \<and> (\<forall>i \<in> set items.
                              fst i \<longrightarrow> snd i = BuildFrame [] (mkFrame MsgTypeRotate []))
                        \<and> wb = concat (map snd (filter (\<lambda>i. \<not> fst i) items))
                                 @ bufWrite d'))"
    by (rule conjunct2)
qed

lemma ex_small_flush:
  "flush demo_cipher 5 (ex_small\<lparr>bufWrite := data_frames [[1], [2], [3]]\<rparr>)
   = Done (Some (ErrDriver 1), ex_small_after)"
  by code_simp

lemma ex_small_Write:
  "Write demo_cipher 5 ex_small [1, 2, 3] = Done ((0, Some (ErrDriver 1)), ex_small_after)"
  by code_simp

theorem flush_failure_witness:
  "flush_ready (ex_small\<lparr>bufWrite := data_frames [[1], [2], [3]]\<rparr>)
   \<and> flush_ready ex_small \<and> ([1, 2, 3 :: byte] = [] \<or> 0 < mtu ex_small)
   \<and> (\<exists>res c'. flush demo_cipher 5 (ex_small\<lparr>bufWrite := data_frames [[1], [2], [3]]\<rparr>)
                  = Done (res, c'))
   \<and> (\<exists>n r d'. Write demo_cipher 5 ex_small [1, 2, 3] = Done ((n, r), d'))
   \<and> flush demo_cipher 5 (ex_small\<lparr>bufWrite := data_frames [[1], [2], [3]]\<rparr>)
     = Done (Some (ErrDriver 1), ex_small_after)
   \<and> Write demo_cipher 5 ex_small [1, 2, 3] = Done ((0, Some (ErrDriver 1)), ex_small_after)
   \<and> WriteRaw_log (transport ex_small_after)
       = WriteRaw_log (transport (ex_small\<lparr>bufWrite := data_frames [[1], [2], [3]]\<rparr>))
         @ [([0, 0, 0, 22, 0, 0, 0, 1, 0, 1] @ replicate 16 0, Some (ErrDriver 1))]
   \<and> (\<exists>items nh'.
         seal_all demo_cipher (noise (ex_small\<lparr>bufWrite := data_frames [[1], [2], [3]]\<rparr>))
           (map snd items)
         = Some (map fst [([0, 0, 0, 22, 0, 0, 0, 1, 0, 1] @ replicate 16 (0 :: byte),
                           Some (ErrDriver 1))], nh')
       \<and> (\<forall>i \<in> set items. fst i \<longrightarrow> snd i = BuildFrame [] (mkFrame MsgTypeRotate []))
       \<and> bufWrite (ex_small\<lparr>bufWrite := data_frames [[1], [2], [3]]\<rparr>)
           = concat (map snd (filter (\<lambda>i. \<not> fst i) items)) @ bufWrite ex_small_after)
   \<and> bufWrite (ex_small\<lparr>bufWrite := data_frames [[1], [2], [3]]\<rparr>)
       = BuildFrame [] (mkFrame MsgTypeData [1]) @ bufWrite ex_small_after
   \<and> bufWrite ex_small_after = data_frames [[2], [3]]
   \<and> (\<exists>k. bufWrite ex_small_after
               = drop k (bufWrite (ex_small\<lparr>bufWrite := data_frames [[1], [2], [3]]\<rparr>)))"
proof -
  let ?c = "ex_small\<lparr>bufWrite := data_frames [[1], [2], [3]]\<rparr>"
  let ?S = "[0, 0, 0, 22, 0, 0, 0, 1, 0, 1] @ replicate 16 (0 :: byte)"
  note t = flush_failure [of ?c demo_cipher 5 ex_small "[1, 2, 3]"]
  have r1: "flush_ready ?c" by code_simp
  have r2: "flush_ready ex_small" by code_simp
  have r3: "[1, 2, 3 :: byte] = [] \<or> 0 < mtu ex_small" by code_simp
  from t r1 have e1: "\<exists>res c'. flush demo_cipher 5 ?c = Done (res, c')" by blast
  from t r2 r3 have e2: "\<exists>n r d'. Write demo_cipher 5 ex_small [1, 2, 3] = Done ((n, r), d')"
    by blast
  have lg: "WriteRaw_log (transport ex_small_after)
            = WriteRaw_log (transport ?c) @ [(?S, Some (ErrDriver 1))]"
    by code_simp
  from t ex_small_flush obtain new where
    n1: "WriteRaw_log (transport ex_small_after) = WriteRaw_log (transport ?c) @ new" and
    n2: "\<forall>chunk err. (chunk, Some err) \<in> set new \<longrightarrow>
           Some (ErrDriver 1) = Some err \<and> last new = (chunk, Some err)
           \<and> (\<exists>items nh'.
                 seal_all demo_cipher (noise ?c) (map snd items) = Some (map fst new, nh')
               \<and> (\<forall>i \<in> set items.
                     fst i \<longrightarrow> snd i = BuildFrame [] (mkFrame MsgTypeRotate []))
               \<and> bufWrite ?c
                   = concat (map snd (filter (\<lambda>i. \<not> fst i) items)) @ bufWrite ex_small_after)"
    by blast
  from t ex_small_flush have k: "\<exists>k. bufWrite ex_small_after = drop k (bufWrite ?c)"
    by blast
  from n1 lg have new: "new = [(?S, Some (ErrDriver 1))]" by simp
  then have "(?S, Some (ErrDriver 1)) \<in> set new" by simp
  with n2 have "\<exists>items nh'.
                 seal_all demo_cipher (noise ?c) (map snd items) = Some (map fst new, nh')
               \<and> (\<forall>i \<in> set items.
                     fst i \<longrightarrow> snd i = BuildFrame [] (mkFrame MsgTypeRotate []))
               \<and> bufWrite ?c
                   = concat (map snd (filter (\<lambda>i. \<not> fst i) items)) @ bufWrite ex_small_after"
    by blast
  then have a: "\<exists>items nh'.
         seal_all demo_cipher (noise ?c) (map snd items)
         = Some (map fst [(?S, Some (ErrDriver 1))], nh')
       \<and> (\<forall>i \<in> set items. fst i \<longrightarrow> snd i = BuildFrame [] (mkFrame MsgTypeRotate []))
       \<and> bufWrite ?c
           = concat (map snd (filter (\<lambda>i. \<not> fst i) items)) @ bufWrite ex_small_after"
    by (simp only: new)
  have b: "bufWrite ?c = BuildFrame [] (mkFrame MsgTypeData [1]) @ bufWrite ex_small_after"
    by code_simp
  have c: "bufWrite ex_small_after = data_frames [[2], [3]]" by code_simp
  from r1 r2 r3 e1 e2 ex_small_flush ex_small_Write lg a b c k show ?thesis by (intro conjI)
qed

text \<open>
  The claim as stated fails: a \<open>Write\<close> of three bytes whose first raw write fails
  returns the count 0 with the error, not the accepted count 3, although two of its three
  frames are still in the write buffer (the first one was handed to the failed write).
\<close>

theorem flush_failure_counterexample:
  "Write demo_cipher 5 ex_small [1, 2, 3] = Done ((0, Some (ErrDriver 1)), ex_small_after)
   \<and> bufWrite ex_small = []
   \<and> bufWrite ex_small_after = data_frames [[2], [3]]
   \<and> (0 :: int) \<noteq> int (length [1, 2, 3 :: byte])"
proof -
  have "bufWrite ex_small = []" by code_simp
  moreover have "bufWrite ex_small_after = data_frames [[2], [3]]" by code_simp
  ultimately show ?thesis using ex_small_Write by simp
qed

lemma aead_len_demo: "aead_len demo_cipher"
  by (simp add: aead_len_def demo_cipher_def demo_Encrypt_def tag_of_def)

text \<open>
  C3 (as amended).  \<open>newConn\<close> sets \<open>mtu = max_raw_size - 20 - 5\<close>; the loop of \<open>Write\<close>
  appends DATA frames whose payloads make up the argument and have at most \<open>mtu\<close> bytes
  each; and on a connection with \<open>max_raw_size \<ge> 25\<close>, over a cipher whose ciphertexts
  are 16 bytes longer than their plaintexts, every chunk that a \<open>flush\<close> hands to
  \<open>WriteRaw\<close> is the sealing of at most \<open>max_raw_size - 20\<close> plaintext bytes: its
  ciphertext with tag has at most \<open>max_raw_size - 4\<close> bytes and the whole chunk at most
  \<open>max_raw_size\<close>.
\<close>

theorem size_bounds:
  assumes "aead_len A" and "25 \<le> MaxRawSize (transport c)"
      and "flush A now c = Done (res, c')"
      and "Write_loop (mtu d) (bufWrite d) p = Done wb"
  shows "mtu (newConn t0 t fp dp nh drv cid) = MaxRawSize t - 20 - 5
       \<and> (\<exists>ds. wb = bufWrite d @ data_frames ds \<and> concat ds = p
              \<and> (\<forall>x \<in> set ds. int (length x) \<le> mtu d))
       \<and> (\<exists>new. WriteRaw_log (transport c') = WriteRaw_log (transport c) @ new
              \<and> (\<forall>x \<in> set new.
                     20 \<le> length (fst x)
                     \<and> int (length (fst x)) - 20 \<le> MaxRawSize (transport c) - 20
                     \<and> int (length (drop 4 (fst x))) \<le> MaxRawSize (transport c) - 4
                     \<and> int (length (fst x)) \<le> MaxRawSize (transport c)))"
proof -
  have 1: "mtu (newConn t0 t fp dp nh drv cid) = MaxRawSize t - 20 - 5"
    by (simp add: newConn_def NoiseOverhead_def FrameHeaderSize_def)
  from Write_loop_Done [OF assms(4)] have 2:
    "\<exists>ds. wb = bufWrite d @ data_frames ds \<and> concat ds = p
              \<and> (\<forall>x \<in> set ds. int (length x) \<le> mtu d)"
    by blast
  from flush_spec [OF assms(3)] assms(1) obtain new where
    l: "WriteRaw_log (transport c') = WriteRaw_log (transport c) @ new" and
    b: "\<forall>x \<in> set new. 20 \<le> length (fst x)
          \<and> int (length (fst x)) - 20 \<le> max 5 (MaxRawSize (transport c) - NoiseOverhead)"
    by blast
  have m: "max 5 (MaxRawSize (transport c) - NoiseOverhead) = MaxRawSize (transport c) - 20"
    using assms(2) by (simp add: NoiseOverhead_def)
  have "\<forall>x \<in> set new.
          20 \<le> length (fst x)
          \<and> int (length (fst x)) - 20 \<le> MaxRawSize (transport c) - 20
          \<and> int (length (drop 4 (fst x))) \<le> MaxRawSize (transport c) - 4
          \<and> int (length (fst x)) \<le> MaxRawSize (transport c)"
  proof
    fix x assume "x \<in> set new"
    with b m have "20 \<le> length (fst x)"
      "int (length (fst x)) - 20 \<le> MaxRawSize (transport c) - 20" by auto
    then show "20 \<le> length (fst x)
          \<and> int (length (fst x)) - 20 \<le> MaxRawSize (transport c) - 20
          \<and> int (length (drop 4 (fst x))) \<le> MaxRawSize (transport c) - 4
          \<and> int (length (fst x)) \<le> MaxRawSize (transport c)"
      by simp
  qed
  with l have 3: "\<exists>new. WriteRaw_log (transport c') = WriteRaw_log (transport c) @ new
              \<and> (\<forall>x \<in> set new.
                     20 \<le> length (fst x)
                     \<and> int (length (fst x)) - 20 \<le> MaxRawSize (transport c) - 20
                     \<and> int (length (drop 4 (fst x))) \<le> MaxRawSize (transport c) - 4
                     \<and> int (length (fst x)) \<le> MaxRawSize (transport c))"
    by blast
  from 1 2 3 show ?thesis by blast
qed

lemma ex_ok_flush: "flush demo_cipher 5 ex_ok = Done (None, ex_ok_after)"
  by code_simp

lemma ex_ok_Write_loop:
  "Write_loop (mtu ex_small) (bufWrite ex_small) [1, 2, 3] = Done (data_frames [[1], [2], [3]])"
  by code_simp

theorem size_bounds_witness:
  "aead_len demo_cipher \<and> 25 \<le> MaxRawSize (transport ex_ok)
   \<and> flush demo_cipher 5 ex_ok = Done (None, ex_ok_after)
   \<and> Write_loop (mtu ex_small) (bufWrite ex_small) [1, 2, 3] = Done (data_frames [[1], [2], [3]])
   \<and> (mtu (newConn 0 ex_transport 0 0 demo_initiator True ''c1'' :: nat Conn)
        = MaxRawSize ex_transport - 20 - 5
       \<and> (\<exists>ds. data_frames [[1], [2], [3]] = bufWrite ex_small @ data_frames ds
              \<and> concat ds = [1, 2, 3]
              \<and> (\<forall>x \<in> set ds. int (length x) \<le> mtu ex_small))
       \<and> (\<exists>new. WriteRaw_log (transport ex_ok_after) = WriteRaw_log (transport ex_ok) @ new
              \<and> (\<forall>x \<in> set new.
                     20 \<le> length (fst x)
                     \<and> int (length (fst x)) - 20 \<le> MaxRawSize (transport ex_ok) - 20
                     \<and> int (length (drop 4 (fst x))) \<le> MaxRawSize (transport ex_ok) - 4
                     \<and> int (length (fst x)) \<le> MaxRawSize (transport ex_ok))))"
proof -
  have h: "25 \<le> MaxRawSize (transport ex_ok)" by code_simp
  show ?thesis
    by (rule conjI [OF aead_len_demo conjI [OF h conjI [OF ex_ok_flush conjI [OF ex_ok_Write_loop
          size_bounds [OF aead_len_demo h ex_ok_flush ex_ok_Write_loop]]]]])
qed

text \<open>
  The bound on the chunks fails on a rotating transport with \<open>max_raw_size = 22\<close>: the
  sealed ROTATE frame that \<open>flush\<close> hands to \<open>WriteRaw\<close> has 25 bytes.
\<close>

theorem size_bounds_counterexample:
  "MaxRawSize (transport ex_rotating) = 22
   \<and> map_run (\<lambda>(e, c). map (length \<circ> fst) (WriteRaw_log (transport c)))
        (flush demo_cipher 5 ex_rotating) = Done [25, 22, 22, 21]"
proof -
  have "MaxRawSize (transport ex_rotating) = 22" by code_simp
  moreover have "map_run (\<lambda>(e, c). map (length \<circ> fst) (WriteRaw_log (transport c)))
        (flush demo_cipher 5 ex_rotating) = Done [25, 22, 22, 21]" by code_simp
  ultimately show ?thesis by simp
qed

section \<open>Read: results\<close>

lemma frame_header:
  assumes "length payload < 2 ^ 32"
  shows "take 5 (BuildFrame [] (mkFrame ty payload) @ rest) ! 4 = ty"
    and "uint (Uint32 (take 4 (take 5 (BuildFrame [] (mkFrame ty payload) @ rest))))
         = int (length payload)"
    and "length (BuildFrame [] (mkFrame ty payload) @ rest) = 5 + length payload + length rest"
    and "drop 5 (BuildFrame [] (mkFrame ty payload) @ rest) = payload @ rest"
proof -
  let ?h = "PutUint32 (of_nat (length payload))"
  have e: "BuildFrame [] (mkFrame ty payload) @ rest = ?h @ [ty] @ payload @ rest"
    by (simp add: BuildFrame_append mkFrame_def)
  have l4: "length ?h = 4" by (rule length_PutUint32)
  show "take 5 (BuildFrame [] (mkFrame ty payload) @ rest) ! 4 = ty"
    using l4 by (simp add: e nth_append)
  have "take 4 (take 5 (BuildFrame [] (mkFrame ty payload) @ rest)) = ?h"
    using l4 by (simp add: e)
  moreover have "Uint32 ?h = of_nat (length payload)"
    using Uint32_PutUint32 [of _ "[]"] by simp
  moreover have "uint (of_nat (length payload) :: 32 word) = int (length payload)"
    using unat_of_nat_len32 [OF assms] by (simp only: uint_nat)
  ultimately show "uint (Uint32 (take 4 (take 5 (BuildFrame [] (mkFrame ty payload) @ rest))))
         = int (length payload)" by simp
  show "length (BuildFrame [] (mkFrame ty payload) @ rest) = 5 + length payload + length rest"
    using l4 by (simp add: e)
  show "drop 5 (BuildFrame [] (mkFrame ty payload) @ rest) = payload @ rest"
    using l4 by (simp add: e)
qed

lemma Read_step_frame:
  assumes "\<not> closed c" "\<not> closedRead c" "\<not> deadline_passed (readDeadline c) now"
    "readRemain c \<le> 0" "bufRead c = BuildFrame [] (mkFrame ty payload) @ rest"
    "length payload < 2 ^ 32"
  shows "Read_step A now c n = Done (Read_frame now c n ty (int (length payload)))"
  using assms(1-4) frame_header [OF assms(6), of ty rest]
  by (simp add: Read_step_def assms(5) FrameHeaderSize_def)

lemma Read_step_remain:
  assumes "\<not> closed c" "\<not> closedRead c" "\<not> deadline_passed (readDeadline c) now"
    "0 < readRemain c"
  shows "Read_step A now c n =
     Done (RStop (take n (take (nat (min (readRemain c) (int n))) (bufRead c))) None
       (c\<lparr>bufRead := drop (nat (min (readRemain c) (int n))) (bufRead c),
          readRemain := readRemain c
             - int (length (take n (take (nat (min (readRemain c) (int n))) (bufRead c))))\<rparr>))"
  using assms by (simp add: Read_step_def Next_def Let_def)

text \<open>
  C10.  On an open connection (not closed, read side not closed, read deadline not
  passed, no partly consumed frame) whose read buffer starts with a complete DATA frame of
  \<open>L > 0\<close> payload bytes, \<open>Read\<close> with a destination of length 0 returns 0 bytes and no
  error; it has consumed the 5 header bytes, set \<open>readRemain = L\<close> and \<open>peerLastSeen\<close> to
  the current time, and the payload is still at the head of the read buffer, from where
  a later \<open>Read\<close> with a destination of length \<open>n\<close> returns its first \<open>min n L\<close> bytes.
\<close>

theorem Read_zero_length:
  assumes "\<not> closed c" "\<not> closedRead c" "\<not> deadline_passed (readDeadline c) now"
    "readRemain c = 0" "bufRead c = BuildFrame [] (mkFrame MsgTypeData payload) @ rest"
    "0 < length payload" "length payload < 2 ^ 32"
    "\<not> deadline_passed (readDeadline c) later"
  shows "Read A now c 0
         = Done (([], None),
             c\<lparr>peerLastSeen := now, bufRead := payload @ rest,
               readRemain := int (length payload)\<rparr>)
       \<and> Read A later
           (c\<lparr>peerLastSeen := now, bufRead := payload @ rest,
              readRemain := int (length payload)\<rparr>) n
         = Done ((take n payload, None),
             c\<lparr>peerLastSeen := now, bufRead := drop n payload @ rest,
               readRemain := int (length payload) - int (length (take n payload))\<rparr>)"
proof -
  let ?c1 = "c\<lparr>peerLastSeen := now, bufRead := payload @ rest,
               readRemain := int (length payload)\<rparr>"
  have r: "readRemain c \<le> 0" using assms(4) by simp
  have s1: "Read_step A now c 0 = Done (RStop [] None ?c1)"
    using frame_header(4) [OF assms(7), of MsgTypeData rest]
    by (simp add: Read_step_frame [OF assms(1-3) r assms(5,7)] Read_frame_def Let_def Next_def
        FrameHeaderSize_def assms(5))
  have 1: "Read A now c 0 = Done (([], None), ?c1)"
    by (subst Read.simps) (simp add: s1)
  have k: "nat (min (int (length payload)) (int n)) = min (length payload) n"
    by (simp add: min_def)
  have t: "take n (take (min (length payload) n) (payload @ rest)) = take n payload"
    by (simp add: min_def)
  have d: "drop (min (length payload) n) (payload @ rest) = drop n payload @ rest"
    by (simp add: min_def)
  have s2: "Read_step A later ?c1 n
       = Done (RStop (take n payload) None
           (?c1\<lparr>bufRead := drop n payload @ rest,
                 readRemain := int (length payload) - int (length (take n payload))\<rparr>))"
    using assms(1,2,6,8) by (auto simp: Read_step_remain min_def)
  have 2: "Read A later ?c1 n
       = Done ((take n payload, None),
           c\<lparr>peerLastSeen := now, bufRead := drop n payload @ rest,
             readRemain := int (length payload) - int (length (take n payload))\<rparr>)"
    by (subst Read.simps) (simp add: s2)
  from 1 2 show ?thesis by simp
qed

theorem Read_zero_length_witness:
  "\<not> closed ex_reader \<and> \<not> closedRead ex_reader
   \<and> \<not> deadline_passed (readDeadline ex_reader) 7 \<and> readRemain ex_reader = 0
   \<and> bufRead ex_reader = BuildFrame [] (mkFrame MsgTypeData [1, 2, 3]) @ [9]
   \<and> 0 < length [1, 2, 3 :: byte] \<and> length [1, 2, 3 :: byte] < 2 ^ 32
   \<and> \<not> deadline_passed (readDeadline ex_reader) 8
   \<and> Read demo_cipher 7 ex_reader 0
       = Done (([], None), ex_reader\<lparr>peerLastSeen := 7, bufRead := [1, 2, 3, 9], readRemain := 3\<rparr>)
   \<and> Read demo_cipher 8
         (ex_reader\<lparr>peerLastSeen := 7, bufRead := [1, 2, 3, 9], readRemain := 3\<rparr>) 2
       = Done (([1, 2], None), ex_reader\<lparr>peerLastSeen := 7, bufRead := [3, 9], readRemain := 1\<rparr>)"
proof -
  have h: "\<not> closed ex_reader" "\<not> closedRead ex_reader"
    "\<not> deadline_passed (readDeadline ex_reader) 7" "readRemain ex_reader = 0"
    "bufRead ex_reader = BuildFrame [] (mkFrame MsgTypeData [1, 2, 3]) @ [9]"
    "0 < length [1, 2, 3 :: byte]" "length [1, 2, 3 :: byte] < 2 ^ 32"
    "\<not> deadline_passed (readDeadline ex_reader) 8"
    by (simp_all add: ex_reader_def ex_conn_def newConn_def deadline_passed_def)
  from Read_zero_length [OF h, of demo_cipher 2] h show ?thesis by simp
qed

section \<open>Janitor: results\<close>

lemma filter_key_out:
  assumes "cid \<notin> fst ` set xs"
  shows "filter (\<lambda>(k, v). k \<noteq> cid) xs = xs"
  using assms by (induction xs) auto

lemma janitor_range_spec:
  assumes "distinct (map fst (conns l))" "conns l = kept @ rest"
    "janitor_range A now rest l = Done (l', ev)"
  shows "conns l' = kept @ filter (\<lambda>(cid, c). \<not> janitor_cond (idleTimeout l) now c) rest
       \<and> map fst ev = map fst (filter (\<lambda>(cid, c). janitor_cond (idleTimeout l) now c) rest)
       \<and> (\<forall>(cid, c') \<in> set ev. \<exists>c e. (cid, c) \<in> set rest \<and> janitor_cond (idleTimeout l) now c
              \<and> Close A now c = Done (e, c'))
       \<and> driver_calls l' = driver_calls l
           @ concat (map (\<lambda>(cid, c). [DeleteToken cid, CleanupSession cid])
               (filter (\<lambda>(cid, c). janitor_cond (idleTimeout l) now c) rest))
       \<and> idleTimeout l' = idleTimeout l"
  using assms
proof (induction rest arbitrary: l kept ev)
  case Nil
  then show ?case by simp
next
  case (Cons x rest)
  obtain cid conn where x: "x = (cid, conn)" by (cases x)
  from Cons.prems(3) x obtain l1 ev1 l2 ev2 where
    v: "janitor_visit A now cid conn l = Done (l1, ev1)" and
    r: "janitor_range A now rest l1 = Done (l2, ev2)" and
    res: "l' = l2" "ev = ev1 @ ev2"
    by (auto simp: run_bind_def split: run.splits prod.splits)
  from Cons.prems(1,2) x have nk: "cid \<notin> fst ` set kept" "cid \<notin> fst ` set rest"
    by auto
  show ?case
  proof (cases "janitor_cond (idleTimeout l) now conn")
    case True
    with v obtain err conn' where cl: "Close A now conn = Done (err, conn')" and
      l1: "l1 = l\<lparr>driver_calls := driver_calls l @ [DeleteToken cid, CleanupSession cid],
                  conns := filter (\<lambda>(k, v). k \<noteq> cid) (conns l)\<rparr>" and
      ev1: "ev1 = [(cid, conn')]"
      by (auto simp: janitor_visit_def run_bind_def split: run.splits prod.splits)
    have c1: "conns l1 = kept @ rest"
      using Cons.prems(2) x nk by (simp add: l1 filter_key_out)
    have d1: "distinct (map fst (conns l1))"
      using Cons.prems(1,2) x by (simp add: c1)
    have t1: "idleTimeout l1 = idleTimeout l" by (simp add: l1)
    from r res have r': "janitor_range A now rest l1 = Done (l', ev2)" by simp
    from Cons.IH [OF d1 c1 r'] t1 True x cl res ev1 l1 show ?thesis
      by (auto simp: case_prod_beta) force
  next
    case False
    with v have l1: "l1 = l" and ev1: "ev1 = []"
      by (auto simp: janitor_visit_def)
    have c1: "conns l1 = (kept @ [x]) @ rest" using Cons.prems(2) l1 by simp
    have d1: "distinct (map fst (conns l1))" using Cons.prems(1) l1 by simp
    from r res have r': "janitor_range A now rest l1 = Done (l', ev2)" by simp
    from Cons.IH [OF d1 c1 r'] False x res ev1 l1 show ?thesis
      by (auto simp: case_prod_beta) force
  qed
qed

lemma time_Sub_exact:
  "0 \<le> now \<Longrightarrow> now < 2 ^ 63 \<Longrightarrow> 0 \<le> t \<Longrightarrow> t < 2 ^ 63 \<Longrightarrow> time_Sub now t = now - t"
  by (simp add: time_Sub_def Let_def)

lemma janitor_visit_total:
  assumes "janitor_cond (idleTimeout l) now conn \<longrightarrow> (\<exists>r. Close A now conn = Done r)"
  shows "\<exists>l1 ev1. janitor_visit A now cid conn l = Done (l1, ev1)
           \<and> idleTimeout l1 = idleTimeout l"
proof (cases "janitor_cond (idleTimeout l) now conn")
  case True
  with assms obtain err conn' where "Close A now conn = Done (err, conn')" by auto
  with True show ?thesis by (simp add: janitor_visit_def run_bind_def)
next
  case False
  then show ?thesis by (simp add: janitor_visit_def)
qed

text \<open>A tick returns when the \<open>Close\<close> of every connection it evicts returns.\<close>

lemma janitor_range_total:
  assumes "\<forall>(cid, c) \<in> set rest.
             janitor_cond (idleTimeout l) now c \<longrightarrow> (\<exists>r. Close A now c = Done r)"
  shows "\<exists>l' ev. janitor_range A now rest l = Done (l', ev)"
  using assms
proof (induction rest arbitrary: l)
  case Nil
  then show ?case by simp
next
  case (Cons x rest)
  obtain cid conn where x: "x = (cid, conn)" by (cases x)
  from Cons.prems x
  have h: "janitor_cond (idleTimeout l) now conn \<longrightarrow> (\<exists>r. Close A now conn = Done r)"
    by simp
  from janitor_visit_total [OF h, of cid] obtain l1 ev1 where
    v: "janitor_visit A now cid conn l = Done (l1, ev1)" and t: "idleTimeout l1 = idleTimeout l"
    by blast
  from Cons.prems have "\<forall>(cid, c) \<in> set rest.
             janitor_cond (idleTimeout l1) now c \<longrightarrow> (\<exists>r. Close A now c = Done r)"
    by (simp add: t)
  from Cons.IH [OF this] obtain l2 ev2 where "janitor_range A now rest l1 = Done (l2, ev2)"
    by blast
  with v show ?case by (simp add: x run_bind_def)
qed

text \<open>
  C9 (as amended).  On a listener whose map has distinct keys, when the \<open>Close\<close> of
  every connection that meets the eviction condition returns, a tick of the janitor
  completes, and afterwards: the map holds exactly the entries that did not meet the
  condition, unchanged and in their order; exactly the connections that met it were
  evicted, each after its \<open>Close\<close> was called, and for each of them \<open>DeleteToken\<close> and
  \<open>CleanupSession\<close> were called on the driver with its id.  The condition is that both
  \<open>closed\<close> and \<open>closedRead\<close> are set or that \<open>time.Since(peerLastSeen)\<close> exceeds
  \<open>idleTimeout\<close>, where \<open>time.Since\<close> is the difference \<open>now - peerLastSeen\<close> for all times
  that \<open>UnixNano\<close> can represent from 1970 on.
\<close>

theorem janitor_eviction:
  assumes "distinct (map fst (conns l))"
      and "\<forall>(cid, c) \<in> set (conns l).
             janitor_cond (idleTimeout l) now c \<longrightarrow> (\<exists>r. Close A now c = Done r)"
  shows "\<exists>l' ev. janitor_tick A now l = Done (l', ev)
       \<and> conns l' = filter (\<lambda>(cid, c). \<not> janitor_cond (idleTimeout l) now c) (conns l)
       \<and> map fst ev = map fst (filter (\<lambda>(cid, c). janitor_cond (idleTimeout l) now c) (conns l))
       \<and> (\<forall>(cid, c') \<in> set ev. \<exists>c e. (cid, c) \<in> set (conns l)
              \<and> janitor_cond (idleTimeout l) now c \<and> Close A now c = Done (e, c'))
       \<and> driver_calls l' = driver_calls l
           @ concat (map (\<lambda>(cid, c). [DeleteToken cid, CleanupSession cid])
               (filter (\<lambda>(cid, c). janitor_cond (idleTimeout l) now c) (conns l)))
       \<and> idleTimeout l' = idleTimeout l
       \<and> (\<forall>(cid, c) \<in> set (conns l).
             janitor_cond (idleTimeout l) now c
             = ((closed c \<and> closedRead c) \<or> time_Sub now (peerLastSeen c) > idleTimeout l)
             \<and> (0 \<le> now \<and> now < 2 ^ 63 \<and> 0 \<le> peerLastSeen c \<and> peerLastSeen c < 2 ^ 63
                \<longrightarrow> time_Sub now (peerLastSeen c) = now - peerLastSeen c))"
proof -
  from janitor_range_total [OF assms(2)] obtain l' ev where
    r: "janitor_range A now (conns l) l = Done (l', ev)" by blast
  then have tk: "janitor_tick A now l = Done (l', ev)" by (simp add: janitor_tick_def)
  have k: "conns l = [] @ conns l" by simp
  from janitor_range_spec [OF assms(1) k r]
  have 1: "conns l' = filter (\<lambda>(cid, c). \<not> janitor_cond (idleTimeout l) now c) (conns l)"
    and 2: "map fst ev = map fst (filter (\<lambda>(cid, c). janitor_cond (idleTimeout l) now c) (conns l))"
    and 3: "\<forall>(cid, c') \<in> set ev. \<exists>c e. (cid, c) \<in> set (conns l)
              \<and> janitor_cond (idleTimeout l) now c \<and> Close A now c = Done (e, c')"
    and 4: "driver_calls l' = driver_calls l
           @ concat (map (\<lambda>(cid, c). [DeleteToken cid, CleanupSession cid])
               (filter (\<lambda>(cid, c). janitor_cond (idleTimeout l) now c) (conns l)))"
    and 6: "idleTimeout l' = idleTimeout l"
    by simp_all
  have 5: "\<forall>(cid, c) \<in> set (conns l).
             janitor_cond (idleTimeout l) now c
             = ((closed c \<and> closedRead c) \<or> time_Sub now (peerLastSeen c) > idleTimeout l)
             \<and> (0 \<le> now \<and> now < 2 ^ 63 \<and> 0 \<le> peerLastSeen c \<and> peerLastSeen c < 2 ^ 63
                \<longrightarrow> time_Sub now (peerLastSeen c) = now - peerLastSeen c)"
    by (auto simp: janitor_cond_def Let_def time_Sub_exact)
  from tk 1 2 3 4 6 5 show ?thesis by blast
qed

lemma ex_listener_distinct: "distinct (map fst (conns ex_listener))"
  by (simp add: ex_listener_def)

lemma ex_listener_tick:
  "janitor_tick demo_cipher 1000 ex_listener
   = Done (ex_listener_after, [(''a'', ex_stale), (''b'', ex_idle_closed)])"
  by code_simp

lemma ex_stale_Close: "Close demo_cipher 1000 ex_stale = Done (None, ex_stale)"
  by code_simp

lemma ex_idle_Close: "Close demo_cipher 1000 ex_idle = Done (None, ex_idle_closed)"
  by code_simp

lemma ex_live_cond: "\<not> janitor_cond (idleTimeout ex_listener) 1000 ex_live"
  by code_simp

theorem janitor_eviction_witness:
  "distinct (map fst (conns ex_listener))
   \<and> conns ex_listener = [(''a'', ex_stale), (''b'', ex_idle), (''c'', ex_live)]
   \<and> Close demo_cipher 1000 ex_stale = Done (None, ex_stale)
   \<and> Close demo_cipher 1000 ex_idle = Done (None, ex_idle_closed)
   \<and> \<not> janitor_cond (idleTimeout ex_listener) 1000 ex_live
   \<and> (\<exists>l' ev. janitor_tick demo_cipher 1000 ex_listener = Done (l', ev)
       \<and> conns l'
          = filter (\<lambda>(cid, c). \<not> janitor_cond (idleTimeout ex_listener) 1000 c)
              (conns ex_listener)
       \<and> map fst ev
          = map fst (filter (\<lambda>(cid, c). janitor_cond (idleTimeout ex_listener) 1000 c)
                       (conns ex_listener))
       \<and> driver_calls l' = driver_calls ex_listener
           @ concat (map (\<lambda>(cid, c). [DeleteToken cid, CleanupSession cid])
               (filter (\<lambda>(cid, c). janitor_cond (idleTimeout ex_listener) 1000 c)
                  (conns ex_listener))))
   \<and> janitor_tick demo_cipher 1000 ex_listener
      = Done (ex_listener_after, [(''a'', ex_stale), (''b'', ex_idle_closed)])
   \<and> map fst (conns ex_listener_after) = [''c'']
   \<and> driver_calls ex_listener_after
        = [DeleteToken ''a'', CleanupSession ''a'', DeleteToken ''b'', CleanupSession ''b'']"
proof -
  have e: "conns ex_listener = [(''a'', ex_stale), (''b'', ex_idle), (''c'', ex_live)]"
    by (simp add: ex_listener_def)
  have h: "\<forall>(cid, c) \<in> set (conns ex_listener).
             janitor_cond (idleTimeout ex_listener) 1000 c
             \<longrightarrow> (\<exists>r. Close demo_cipher 1000 c = Done r)"
    using ex_stale_Close ex_idle_Close ex_live_cond by (simp add: e)
  from janitor_eviction [OF ex_listener_distinct h]
  have t: "\<exists>l' ev. janitor_tick demo_cipher 1000 ex_listener = Done (l', ev)
       \<and> conns l'
          = filter (\<lambda>(cid, c). \<not> janitor_cond (idleTimeout ex_listener) 1000 c)
              (conns ex_listener)
       \<and> map fst ev
          = map fst (filter (\<lambda>(cid, c). janitor_cond (idleTimeout ex_listener) 1000 c)
                       (conns ex_listener))
       \<and> driver_calls l' = driver_calls ex_listener
           @ concat (map (\<lambda>(cid, c). [DeleteToken cid, CleanupSession cid])
               (filter (\<lambda>(cid, c). janitor_cond (idleTimeout ex_listener) 1000 c)
                  (conns ex_listener)))"
    by blast
  have a': "map fst (conns ex_listener_after) = [''c'']" by (simp add: ex_listener_after_def)
  have d': "driver_calls ex_listener_after
        = [DeleteToken ''a'', CleanupSession ''a'', DeleteToken ''b'', CleanupSession ''b'']"
    by (simp add: ex_listener_after_def)
  from ex_listener_distinct e ex_stale_Close ex_idle_Close ex_live_cond t ex_listener_tick a' d'
  show ?thesis by (intro conjI)
qed

text \<open>
  The claim as stated fails where \<open>Close\<close> does not return.  Over a driver whose raw unit
  is 10 bytes, \<open>maxChunk = 10 - 20\<close> is negative: the \<open>flush\<close> of the FIN frame in \<open>Close\<close>
  asks the write buffer for \<open>min 5 (- 10)\<close> bytes, which panics.  The idle connection
  meets the condition, and the tick neither deletes its token nor removes it from the map.
\<close>

theorem janitor_eviction_counterexample:
  "distinct (map fst (conns ex_tiny_listener))
   \<and> conns ex_tiny_listener = [(''d'', ex_tiny)]
   \<and> janitor_cond (idleTimeout ex_tiny_listener) 1000 ex_tiny
   \<and> time_Sub 1000 (peerLastSeen ex_tiny) > idleTimeout ex_tiny_listener
   \<and> Close demo_cipher 1000 ex_tiny = Panics
   \<and> janitor_tick demo_cipher 1000 ex_tiny_listener = Panics"
proof -
  have a: "distinct (map fst (conns ex_tiny_listener))" by (simp add: ex_tiny_listener_def)
  have b: "conns ex_tiny_listener = [(''d'', ex_tiny)]" by (simp add: ex_tiny_listener_def)
  have c: "janitor_cond (idleTimeout ex_tiny_listener) 1000 ex_tiny" by code_simp
  have d: "time_Sub 1000 (peerLastSeen ex_tiny) > idleTimeout ex_tiny_listener" by code_simp
  have e: "Close demo_cipher 1000 ex_tiny = Panics" by code_simp
  have f: "janitor_tick demo_cipher 1000 ex_tiny_listener = Panics" by code_simp
  from a b c d e f show ?thesis by (intro conjI)
qed

section \<open>Half-close: results\<close>



lemma read_side_fields:
  "bufRead (read_side c) = bufRead c" "bufNoise (read_side c) = bufNoise c"
  "closed (read_side c) = closed c" "closedRead (read_side c) = closedRead c"
  "readRemain (read_side c) = readRemain c" "readDeadline (read_side c) = readDeadline c"
  "noise (read_side c) = nnorm (noise c)" "poll (read_side c) = poll c"
  "transport (read_side c) = tnorm (transport c)"
  "cleanupToken (read_side c) = cleanupToken c" "hasDriver (read_side c) = hasDriver c"
  by (simp_all add: read_side_def)










lemma SealData_nnorm:
  assumes "SealData A nh p = Done (res, nh')"
  shows "nnorm nh' = nnorm nh"
proof -
  from assms obtain r0 where "EncryptData A nh p = Done (r0, nh')"
    by (auto simp: SealData_def split: run.splits prod.splits sum.splits)
  then show ?thesis
    by (auto simp: EncryptData_def nnorm_def split: if_splits option.splits prod.splits)
qed

lemma WriteRaw_tnorm: "WriteRaw t d = Done (w, t') \<Longrightarrow> tnorm t' = tnorm t"
  by (auto simp: WriteRaw_def tnorm_def split: list.splits)

lemma read_side_wr:
  "read_side (c\<lparr>bufWrite := wb\<rparr>) = read_side c"
  "read_side (c\<lparr>lastActive := la\<rparr>) = read_side c"
  "nnorm nh = nnorm (noise c) \<Longrightarrow> read_side (c\<lparr>noise := nh\<rparr>) = read_side c"
  "tnorm t = tnorm (transport c) \<Longrightarrow> read_side (c\<lparr>transport := t\<rparr>) = read_side c"
  by (simp_all add: read_side_def)

lemma flush_data_read_side:
  assumes "flush_data A now m c = Done st"
  shows "read_side (fconn st) = read_side c \<and> closedWrite (fconn st) = closedWrite c"
proof -
  let ?k = "nat (min (int (length (bufWrite c))) m)"
  from flush_data_Done [OF assms] obtain res nh where
    sd: "SealData A (noise c) (take ?k (bufWrite c)) = Done (res, nh)" and
    cs: "case res of
          Inl err \<Rightarrow> st = FStop (Some err) (c\<lparr>bufWrite := drop ?k (bufWrite c), noise := nh\<rparr>)
        | Inr sealed \<Rightarrow>
            (\<exists>w t. WriteRaw (transport c) sealed = Done (w, t)
               \<and> (case w of
                    Some err \<Rightarrow>
                      st = FStop (Some err)
                        (c\<lparr>bufWrite := drop ?k (bufWrite c), noise := nh, transport := t\<rparr>)
                  | None \<Rightarrow>
                      st = FCont
                        (c\<lparr>bufWrite := drop ?k (bufWrite c), noise := nh, transport := t,
                           lastActive := now\<rparr>)))"
    by blast
  note n = SealData_nnorm [OF sd]
  show ?thesis
  proof (cases res)
    case (Inl err)
    with cs n show ?thesis by (simp add: read_side_wr)
  next
    case (Inr sealed)
    with cs obtain w t where wr: "WriteRaw (transport c) sealed = Done (w, t)" and
      cw: "case w of
             Some err \<Rightarrow>
               st = FStop (Some err)
                 (c\<lparr>bufWrite := drop ?k (bufWrite c), noise := nh, transport := t\<rparr>)
           | None \<Rightarrow>
               st = FCont
                 (c\<lparr>bufWrite := drop ?k (bufWrite c), noise := nh, transport := t,
                    lastActive := now\<rparr>)"
      by auto
    from cw n WriteRaw_tnorm [OF wr] show ?thesis
      by (cases w) (simp_all add: read_side_wr)
  qed
qed

lemma RotateTX_rnorm: "RotateTX r = Done (e, r') \<Longrightarrow> rnorm r' = rnorm r"
  by (auto simp: RotateTX_def rnorm_def split: list.splits)

lemma ShouldRotate_rnorm: "ShouldRotate r = Done (b, r') \<Longrightarrow> rnorm r' = rnorm r"
  by (auto simp: ShouldRotate_def rnorm_def split: list.splits)

lemma tnorm_rotator:
  "rotator t = Some r \<Longrightarrow> rnorm r' = rnorm r \<Longrightarrow> tnorm (t\<lparr>rotator := Some r'\<rparr>) = tnorm t"
  by (simp add: tnorm_def)

lemma flush_rotate_read_side:
  assumes "flush_rotate A c = Done st"
  shows "read_side (fconn st) = read_side c \<and> closedWrite (fconn st) = closedWrite c"
proof -
  let ?rb = "BuildFrame [] (mkFrame MsgTypeRotate [])"
  from flush_rotate_Done [OF assms] obtain res nh where
    sd: "SealData A (noise c) ?rb = Done (res, nh)" and
    cs: "case res of
          Inl err \<Rightarrow> st = FStop (Some err) (c\<lparr>noise := nh\<rparr>)
        | Inr sealed \<Rightarrow>
            (\<exists>w t. WriteRaw (transport c) sealed = Done (w, t)
               \<and> (case w of
                    Some err \<Rightarrow> st = FStop (Some err) (c\<lparr>noise := nh, transport := t\<rparr>)
                  | None \<Rightarrow>
                      (\<exists>r rerr r'. rotator t = Some r \<and> RotateTX r = Done (rerr, r')
                         \<and> (case rerr of
                              Some err \<Rightarrow>
                                st = FStop (Some err)
                                  (c\<lparr>noise := nh, transport := t\<lparr>rotator := Some r'\<rparr>\<rparr>)
                            | None \<Rightarrow>
                                st = FCont
                                  (c\<lparr>noise := nh, transport := t\<lparr>rotator := Some r'\<rparr>\<rparr>)))))"
    by blast
  note n = SealData_nnorm [OF sd]
  show ?thesis
  proof (cases res)
    case (Inl err)
    with cs n show ?thesis by (simp add: read_side_wr)
  next
    case (Inr sealed)
    with cs obtain w t where wr: "WriteRaw (transport c) sealed = Done (w, t)" and
      cw: "case w of
             Some err \<Rightarrow> st = FStop (Some err) (c\<lparr>noise := nh, transport := t\<rparr>)
           | None \<Rightarrow>
               (\<exists>r rerr r'. rotator t = Some r \<and> RotateTX r = Done (rerr, r')
                  \<and> (case rerr of
                       Some err \<Rightarrow>
                         st = FStop (Some err)
                           (c\<lparr>noise := nh, transport := t\<lparr>rotator := Some r'\<rparr>\<rparr>)
                     | None \<Rightarrow>
                         st = FCont (c\<lparr>noise := nh, transport := t\<lparr>rotator := Some r'\<rparr>\<rparr>)))"
      by auto
    note t = WriteRaw_tnorm [OF wr]
    show ?thesis
    proof (cases w)
      case (Some err)
      with cw n t show ?thesis by (simp add: read_side_wr)
    next
      case None
      with cw obtain r rerr r' where r: "rotator t = Some r" "RotateTX r = Done (rerr, r')" and
        st: "fconn st = c\<lparr>noise := nh, transport := t\<lparr>rotator := Some r'\<rparr>\<rparr>"
        by (auto split: option.splits)
      from tnorm_rotator [OF r(1) RotateTX_rnorm [OF r(2)]] t
      have "tnorm (t\<lparr>rotator := Some r'\<rparr>) = tnorm (transport c)" by simp
      with n st show ?thesis by (simp add: read_side_wr)
    qed
  qed
qed

lemma flush_step_read_side:
  assumes "flush_step A now c = Done st"
  shows "read_side (fconn st) = read_side c \<and> closedWrite (fconn st) = closedWrite c"
proof (cases "length (bufWrite c) = 0")
  case True
  with assms have "st = FStop None c" by (simp add: flush_step_def)
  then show ?thesis by simp
next
  case False
  show ?thesis
  proof (cases "rotator (transport c)")
    case None
    with assms False
    have "flush_data A now (MaxRawSize (transport c) - NoiseOverhead) c = Done st"
      by (simp add: flush_step_def Let_def)
    then show ?thesis by (rule flush_data_read_side)
  next
    case (Some r)
    with assms False obtain b r' where sr: "ShouldRotate r = Done (b, r')" and
      st: "(if b then flush_rotate A (c\<lparr>transport := (transport c)\<lparr>rotator := Some r'\<rparr>\<rparr>)
           else flush_data A now (MaxRawSize (transport c) - NoiseOverhead)
                  (c\<lparr>transport := (transport c)\<lparr>rotator := Some r'\<rparr>\<rparr>)) = Done st"
      by (auto simp: flush_step_def Let_def run_bind_def split: run.splits prod.splits)
    let ?c1 = "c\<lparr>transport := (transport c)\<lparr>rotator := Some r'\<rparr>\<rparr>"
    from tnorm_rotator [OF Some ShouldRotate_rnorm [OF sr]]
    have c1: "read_side ?c1 = read_side c" by (simp add: read_side_def)
    have "read_side (fconn st) = read_side ?c1 \<and> closedWrite (fconn st) = closedWrite ?c1"
      using st flush_rotate_read_side [of A ?c1 st]
        flush_data_read_side [of A now "MaxRawSize (transport c) - NoiseOverhead" ?c1 st]
      by (cases b) simp_all
    with c1 show ?thesis by simp
  qed
qed

lemma flush_read_side:
  "flush A now c = Done (r, c') \<Longrightarrow>
   read_side c' = read_side c \<and> closedWrite c' = closedWrite c"
proof (induction A now c rule: flush.induct)
  case (1 A now c)
  show ?case
  proof (cases "flush_step A now c")
    case (Done st)
    note sp = flush_step_read_side [OF Done]
    show ?thesis
    proof (cases st)
      case (FStop e c1)
      with Done "1.prems" sp show ?thesis by (simp add: flush.simps [of A now c])
    next
      case (FCont c1)
      with Done "1.prems" have "flush A now c1 = Done (r, c')"
        by (simp add: flush.simps [of A now c])
      with "1.IH" [OF Done FCont] sp FCont show ?thesis by simp
    qed
  qed (use "1.prems" in \<open>simp_all add: flush.simps [of A now c]\<close>)
qed

lemma closed_read_side: "read_side c' = read_side c \<Longrightarrow> closed c' = closed c"
  using read_side_fields(3) [of c] read_side_fields(3) [of c'] by simp

lemma CloseWrite_spec:
  assumes "CloseWrite A now c = Done (r, c')"
  shows "read_side c' = read_side c \<and> (closed c' \<or> closedWrite c')"
proof (cases "closed c \<or> closedWrite c")
  case True
  with assms have "c' = c" by (auto simp: CloseWrite_def split: if_splits)
  with True show ?thesis by simp
next
  case False
  let ?c1 = "c\<lparr>closedWrite := True, bufWrite := BuildFrame (bufWrite c) (mkFrame MsgTypeFin [])\<rparr>"
  from False assms have "flush A now ?c1 = Done (r, c')" by (simp add: CloseWrite_def)
  from flush_read_side [OF this] have "read_side c' = read_side ?c1" "closedWrite c'" by simp_all
  moreover have "read_side ?c1 = read_side c" by (simp add: read_side_def)
  ultimately show ?thesis by simp
qed









section \<open>Ordered delivery: the receiving side\<close>

lemma UnsealData_short:
  "short_buf data \<Longrightarrow> UnsealData A nh data = Done ((None, Some data, Some ErrShortBuffer), nh)"
  by (auto simp: UnsealData_def Let_def short_buf_def)

lemma Uint32_header:
  assumes "length ct < 2 ^ 32"
  shows "unat (Uint32 (take 4 (PutUint32 (of_nat (length ct)) @ rest))) = length ct"
proof -
  have "take 4 (PutUint32 (of_nat (length ct)) @ rest) = PutUint32 (of_nat (length ct))"
    by (simp add: length_PutUint32)
  moreover have "Uint32 (PutUint32 (of_nat (length ct))) = of_nat (length ct)"
    using Uint32_PutUint32 [of "of_nat (length ct)" "[]"] by simp
  ultimately show ?thesis using assms by (simp only: unat_of_nat_len32)
qed

lemma opens_head:
  assumes "opens A r (bn @ fut) pcs r_end" "\<not> short_buf bn"
  shows "\<exists>ct p r1 bn' ps. pcs = p # ps \<and> bn = PutUint32 (of_nat (length ct)) @ ct @ bn'
           \<and> length ct < 2 ^ 32 \<and> Decrypt A r ct = (Inr p, r1) \<and> opens A r1 (bn' @ fut) ps r_end"
  using assms(1)
proof (cases rule: opens.cases)
  case opens_Nil
  then have "bn = []" by simp
  with assms(2) show ?thesis by (simp add: short_buf_def)
next
  case (opens_Cons ct p r1 W ps)
  let ?H = "PutUint32 (of_nat (length ct))"
  have l4: "length ?H = 4" by (rule length_PutUint32)
  from assms(2) have b4: "4 \<le> length bn" and bl: "4 + unat (Uint32 (take 4 bn)) \<le> length bn"
    by (simp_all add: short_buf_def)
  from b4 have "take 4 bn = take 4 (bn @ fut)" by simp
  also have "\<dots> = take 4 (?H @ ct @ W)" using opens_Cons(1) by simp
  finally have t4: "take 4 bn = take 4 (?H @ ct @ W)" .
  have u: "unat (Uint32 (take 4 bn)) = length ct"
    using Uint32_header [OF opens_Cons(4), of "ct @ W"] by (simp only: t4)
  let ?k = "4 + length ct"
  from bl u have kl: "?k \<le> length bn" by simp
  then have "take ?k bn = take ?k (bn @ fut)" by simp
  also have "\<dots> = take ?k (?H @ ct @ W)" using opens_Cons(1) by simp
  also have "\<dots> = ?H @ ct" using l4 by simp
  finally have tk: "take ?k bn = ?H @ ct" .
  have bn: "bn = ?H @ ct @ drop ?k bn"
    using append_take_drop_id [of ?k bn] tk by simp
  from kl have "drop ?k bn @ fut = drop ?k (bn @ fut)" by simp
  also have "\<dots> = drop ?k (?H @ ct @ W)" using opens_Cons(1) by simp
  also have "\<dots> = W" using l4 by simp
  finally have w: "drop ?k bn @ fut = W" .
  from opens_Cons(2,3,4,5) bn w show ?thesis by blast
qed

lemma opens_short:
  assumes "opens A r bn pcs r_end" "short_buf bn"
  shows "pcs = [] \<and> bn = []"
proof (rule ccontr)
  assume n: "\<not> (pcs = [] \<and> bn = [])"
  from assms(1) show False
  proof (cases rule: opens.cases)
    case opens_Nil
    with n show False by simp
  next
    case (opens_Cons ct p r1 W ps)
    from Uint32_header [OF opens_Cons(4), of "ct @ W"] opens_Cons(1) assms(2)
    show False by (simp add: short_buf_def length_PutUint32)
  qed
qed

lemma opens_append:
  "opens A r W1 ps1 r1 \<Longrightarrow> opens A r1 W2 ps2 r2 \<Longrightarrow> opens A r (W1 @ W2) (ps1 @ ps2) r2"
proof (induction rule: opens.induct)
  case (opens_Nil r)
  then show ?case by simp
next
  case (opens_Cons r ct p r1 W ps r2')
  from opens.opens_Cons [OF opens_Cons(1,2) opens_Cons(4) [OF opens_Cons(5)]]
  show ?case by simp
qed

lemma recv_cs_upd:
  "recv_cs (if isInitiator nh then nh\<lparr>cs2 := Some r1\<rparr> else nh\<lparr>cs1 := Some r1\<rparr>) = Some r1"
  by (simp add: recv_cs_def)

text \<open>
  The decrypt loop on a Noise buffer that, with the bytes still to come, is a sequence of
  sealed chunks: it moves the plaintexts of the chunks that are complete into the read
  buffer and stops with a short buffer.
\<close>

lemma unseal_loop_opens:
  assumes "opens A r (bufNoise c @ fut) pcs r_end" "recv_cs (noise c) = Some r"
  shows "\<exists>pcs1 pcs2 r1 c'. unseal_loop A c = Done (None, c') \<and> pcs = pcs1 @ pcs2
       \<and> bufRead c' = bufRead c @ concat pcs1 \<and> recv_cs (noise c') = Some r1
       \<and> opens A r1 (bufNoise c' @ fut) pcs2 r_end \<and> short_buf (bufNoise c')
       \<and> transport c' = transport c \<and> closed c' = closed c \<and> closedRead c' = closedRead c
       \<and> readRemain c' = readRemain c \<and> readDeadline c' = readDeadline c"
  using assms
proof (induction A c arbitrary: r pcs rule: unseal_loop.induct)
  case (1 A c)
  show ?case
  proof (cases "short_buf (bufNoise c)")
    case True
    have "unseal_step A c = Done (UStop None (c\<lparr>noise := noise c\<rparr>))"
      by (simp add: unseal_step_eq [OF UnsealData_short [OF True]])
    then have "unseal_loop A c = Done (None, c)"
      by (simp add: unseal_loop.simps [of A c])
    with True "1.prems" show ?thesis
      by (intro exI [of _ "[]"] exI [of _ pcs] exI [of _ r] exI [of _ c]) simp
  next
    case False
    from opens_head [OF "1.prems"(1) False] obtain ct p r1 bn' ps where
      pcs: "pcs = p # ps" and bn: "bufNoise c = PutUint32 (of_nat (length ct)) @ ct @ bn'" and
      lct: "length ct < 2 ^ 32" and dec: "Decrypt A r ct = (Inr p, r1)" and
      op: "opens A r1 (bn' @ fut) ps r_end"
      by blast
    let ?nh = "if isInitiator (noise c) then (noise c)\<lparr>cs2 := Some r1\<rparr>
               else (noise c)\<lparr>cs1 := Some r1\<rparr>"
    have u: "UnsealData A (noise c) (bufNoise c) = Done ((Some p, Some bn', None), ?nh)"
      using UnsealData_sealed [OF "1.prems"(2) dec lct, of bn'] by (simp add: bn)
    let ?c1 = "(cleanupToken_Do (c\<lparr>noise := ?nh\<rparr>))\<lparr>bufRead := bufRead c @ p, bufNoise := bn'\<rparr>"
    have used: "drop (nat (int (length (bufNoise c)) - int (length bn'))) (bufNoise c) = bn'"
      by (simp add: bn length_PutUint32)
    have st: "unseal_step A c = Done (UCont ?c1)"
      using used by (simp add: unseal_step_eq [OF u])
    have rc: "recv_cs (noise ?c1) = Some r1"
      by (simp add: cleanupToken_Do_fields recv_cs_upd)
    have b1: "bufNoise ?c1 = bn'" by simp
    from op have op1: "opens A r1 (bufNoise ?c1 @ fut) ps r_end" by (simp only: b1)
    from "1.IH" [OF st refl op1 rc] obtain pcs1 pcs2 r2 c' where
      ih: "unseal_loop A ?c1 = Done (None, c')" "ps = pcs1 @ pcs2"
        "bufRead c' = bufRead ?c1 @ concat pcs1" "recv_cs (noise c') = Some r2"
        "opens A r2 (bufNoise c' @ fut) pcs2 r_end" "short_buf (bufNoise c')"
        "transport c' = transport ?c1" "closed c' = closed ?c1" "closedRead c' = closedRead ?c1"
        "readRemain c' = readRemain ?c1" "readDeadline c' = readDeadline ?c1"
      by blast
    have ul: "unseal_loop A c = Done (None, c')"
      using ih(1) by (simp add: unseal_loop.simps [of A c] st)
    have f: "transport ?c1 = transport c" "closed ?c1 = closed c" "closedRead ?c1 = closedRead c"
      "readRemain ?c1 = readRemain c" "readDeadline ?c1 = readDeadline c"
      "bufRead ?c1 = bufRead c @ p"
      by (simp_all add: cleanupToken_Do_def Let_def)
    show ?thesis
      using ul pcs ih(2-6) ih(7-11) f
      by (intro exI [of _ "p # pcs1"] exI [of _ pcs2] exI [of _ r2] exI [of _ c']) simp
  qed
qed


lemma recv_invI:
  assumes "\<not> closed c" "\<not> closedRead c" "readDeadline c = None" "0 \<le> readRemain c"
    "list_all raw_ok (ReadRaw_script (transport c))" "short_buf (bufNoise c)"
    "nat (readRemain c) \<le> length (bufRead c)" "recv_cs (noise c) = Some r"
    "opens A r (bufNoise c @ concat (map raw_bytes (ReadRaw_script (transport c)))) pcs r_end"
    "list_all frame_ok fs"
    "drop (nat (readRemain c)) (bufRead c) @ concat pcs = concat (map enc_frame fs)"
    "Y = take (nat (readRemain c)) (bufRead c) @ data_payloads fs"
  shows "recv_inv A c Y"
  unfolding recv_inv_def using assms by blast

lemma recv_invD:
  assumes "recv_inv A c Y"
  shows "\<not> closed c" "\<not> closedRead c" "readDeadline c = None" "0 \<le> readRemain c"
    "list_all raw_ok (ReadRaw_script (transport c))" "short_buf (bufNoise c)"
    "nat (readRemain c) \<le> length (bufRead c)"
    "\<not> deadline_passed (readDeadline c) now"
  using assms by (simp_all add: recv_inv_def deadline_passed_def)

lemma recv_inv_ex:
  assumes "recv_inv A c Y"
  shows "\<exists>r r_end pcs fs.
            recv_cs (noise c) = Some r
            \<and> opens A r (bufNoise c @ concat (map raw_bytes (ReadRaw_script (transport c))))
                 pcs r_end
            \<and> list_all frame_ok fs
            \<and> drop (nat (readRemain c)) (bufRead c) @ concat pcs = concat (map enc_frame fs)
            \<and> Y = take (nat (readRemain c)) (bufRead c) @ data_payloads fs"
  using assms by (simp add: recv_inv_def)

lemma nat_sub_int: "nat (a - int k) = nat a - k"
  by arith

lemma take_take_le: "k \<le> n \<Longrightarrow> take n (take k xs) = take k xs"
  by (simp add: min_absorb2)

lemma take_take_ge: "k \<le> m \<Longrightarrow> take k (take m xs) = take k xs"
  by (simp add: min_absorb1)

lemma Read_step_inv_remain:
  assumes inv: "recv_inv A c Y" and n: "0 < n" and rr: "0 < readRemain c"
  shows "\<exists>bs c' Y'. Read_step A now c n = Done (RStop bs None c') \<and> bs \<noteq> [] \<and> Y = bs @ Y'
           \<and> recv_inv A c' Y'"
proof -
  from recv_inv_ex [OF inv] obtain r r_end pcs fs where
    rc: "recv_cs (noise c) = Some r" and
    op: "opens A r (bufNoise c @ concat (map raw_bytes (ReadRaw_script (transport c)))) pcs r_end"
    and ok: "list_all frame_ok fs" and
    str: "drop (nat (readRemain c)) (bufRead c) @ concat pcs = concat (map enc_frame fs)" and
    y: "Y = take (nat (readRemain c)) (bufRead c) @ data_payloads fs"
    by blast
  note d = recv_invD [OF inv]
  let ?k = "nat (min (readRemain c) (int n))"
  let ?bs = "take n (take ?k (bufRead c))"
  let ?c' = "c\<lparr>bufRead := drop ?k (bufRead c), readRemain := readRemain c - int (length ?bs)\<rparr>"
  have k0: "0 < ?k" using rr n by simp
  have kn: "?k \<le> n" by simp
  have kr: "?k \<le> nat (readRemain c)" by simp
  with d(7) have kl: "?k \<le> length (bufRead c)" by simp
  have bs: "?bs = take ?k (bufRead c)" by (rule take_take_le [OF kn])
  have lbs: "length ?bs = ?k" using kl by (simp only: bs length_take min_absorb2)
  have st: "Read_step A now c n = Done (RStop ?bs None ?c')"
    by (rule Read_step_remain [OF d(1,2,8) rr])
  have ne: "?bs \<noteq> []" using lbs k0 by auto
  have rr1: "readRemain ?c' = readRemain c - int ?k" by (simp only: lbs) simp
  have rr': "nat (readRemain ?c') = nat (readRemain c) - ?k"
    by (simp only: rr1 nat_sub_int)
  have "int ?k \<le> readRemain c" using rr by simp
  then have rr0: "0 \<le> readRemain ?c'" using rr1 by linarith
  have e1: "drop (nat (readRemain ?c')) (bufRead ?c') = drop (nat (readRemain c)) (bufRead c)"
    using kr by (simp only: rr') simp
  have e2: "take (nat (readRemain ?c')) (bufRead ?c')
            = drop ?k (take (nat (readRemain c)) (bufRead c))"
    by (simp only: rr') (simp add: drop_take)
  have e3: "take (nat (readRemain c)) (bufRead c)
            = ?bs @ drop ?k (take (nat (readRemain c)) (bufRead c))"
  proof -
    have "take ?k (take (nat (readRemain c)) (bufRead c)) = take ?k (bufRead c)"
      by (rule take_take_ge [OF kr])
    then show ?thesis
      using append_take_drop_id [of ?k "take (nat (readRemain c)) (bufRead c)"]
      by (simp only: bs)
  qed
  have l: "nat (readRemain ?c') \<le> length (bufRead ?c')"
    using d(7) by (simp only: rr') simp
  have inv': "recv_inv A ?c' (drop ?k (take (nat (readRemain c)) (bufRead c)) @ data_payloads fs)"
  proof (rule recv_invI [where r = r and pcs = pcs and r_end = r_end and fs = fs])
    show "drop (nat (readRemain ?c')) (bufRead ?c') @ concat pcs = concat (map enc_frame fs)"
      using str by (simp only: e1)
    show "drop ?k (take (nat (readRemain c)) (bufRead c)) @ data_payloads fs
          = take (nat (readRemain ?c')) (bufRead ?c') @ data_payloads fs"
      by (simp only: e2)
    show "nat (readRemain ?c') \<le> length (bufRead ?c')" by (rule l)
    show "0 \<le> readRemain ?c'" by (rule rr0)
  qed (use d rc op ok in simp_all)
  have "Y = ?bs @ (drop ?k (take (nat (readRemain c)) (bufRead c)) @ data_payloads fs)"
    using e3 by (simp only: y append_assoc) simp
  with st ne inv' show ?thesis by blast
qed

lemma enc_frame_eq: "enc_frame (ty, pl) = BuildFrame [] (mkFrame ty pl)"
  by (simp add: enc_frame_def)

lemma length_enc_frame: "length (enc_frame (ty, pl)) = 5 + length pl"
  by (simp add: enc_frame_def BuildFrame_append mkFrame_def length_PutUint32)

lemma stream_head:
  assumes t1: "FrameHeaderSize \<le> int (length br)"
    and t2: "FrameHeaderSize + uint (Uint32 (take 4 (take 5 br))) \<le> int (length br)"
    and str: "br @ rest = concat (map enc_frame fs)" and ok: "list_all frame_ok fs"
  shows "\<exists>ty pl fs' br'. fs = (ty, pl) # fs' \<and> br = enc_frame (ty, pl) @ br'
           \<and> br' @ rest = concat (map enc_frame fs')"
proof (cases fs)
  case Nil
  with str t1 show ?thesis by (simp add: FrameHeaderSize_def)
next
  case (Cons f fs')
  obtain ty pl where f: "f = (ty, pl)" by (cases f)
  let ?F = "BuildFrame [] (mkFrame ty pl)"
  let ?S = "concat (map enc_frame fs')"
  from ok Cons f have lp: "length pl < 2 ^ 32" by (simp add: frame_ok_def)
  from str Cons f have e: "br @ rest = ?F @ ?S" by (simp add: enc_frame_eq)
  from t1 have b5: "5 \<le> length br" by (simp add: FrameHeaderSize_def)
  then have "take 5 br = take 5 (br @ rest)" by simp
  then have t5: "take 5 br = take 5 (?F @ ?S)" by (simp only: e)
  have u: "uint (Uint32 (take 4 (take 5 br))) = int (length pl)"
    using frame_header(2) [OF lp, of ty ?S] by (simp only: t5)
  let ?k = "5 + length pl"
  from t2 u have kl: "?k \<le> length br" by (simp add: FrameHeaderSize_def)
  have lF: "length ?F = ?k" using length_enc_frame [of ty pl] by (simp add: enc_frame_eq)
  from kl have "take ?k br = take ?k (br @ rest)" by simp
  also have "\<dots> = take ?k (?F @ ?S)" by (simp only: e)
  also have "\<dots> = ?F" using lF by simp
  finally have tk: "take ?k br = ?F" .
  have br: "br = ?F @ drop ?k br" using append_take_drop_id [of ?k br] by (simp only: tk)
  from kl have "drop ?k br @ rest = drop ?k (br @ rest)" by simp
  also have "\<dots> = drop ?k (?F @ ?S)" by (simp only: e)
  also have "\<dots> = ?S" using lF by simp
  finally have "drop ?k br @ rest = ?S" .
  with br Cons f show ?thesis by (simp add: enc_frame_eq) blast
qed

lemma stream_complete:
  assumes str: "br = concat (map enc_frame fs)" and ok: "list_all frame_ok fs" and ne: "fs \<noteq> []"
  shows "FrameHeaderSize \<le> int (length br)
         \<and> FrameHeaderSize + uint (Uint32 (take 4 (take 5 br))) \<le> int (length br)"
proof -
  from ne obtain ty pl fs' where fs: "fs = (ty, pl) # fs'" by (cases fs) auto
  let ?S = "concat (map enc_frame fs')"
  from ok fs have lp: "length pl < 2 ^ 32" by (simp add: frame_ok_def)
  from str fs have e: "br = BuildFrame [] (mkFrame ty pl) @ ?S" by (simp add: enc_frame_eq)
  from frame_header(2,3) [OF lp, of ty ?S] show ?thesis
    by (simp only: e FrameHeaderSize_def) simp
qed

lemma data_payloads_Cons:
  "data_payloads ((ty, pl) # fs)
   = (if ty = MsgTypeData then pl @ data_payloads fs else data_payloads fs)"
  by (simp add: data_payloads_def)

lemma Read_step_inv_frame:
  assumes inv: "recv_inv A c Y" and n: "0 < n" and rr: "readRemain c = 0"
    and t1: "FrameHeaderSize \<le> int (length (bufRead c))"
    and t2: "FrameHeaderSize + uint (Uint32 (take 4 (take 5 (bufRead c))))
             \<le> int (length (bufRead c))"
  shows "(\<exists>now' c'. Read_step A now c n = Done (RCont now' c') \<and> recv_inv A c' Y)
       \<or> (\<exists>bs c' Y'. Read_step A now c n = Done (RStop bs None c') \<and> bs \<noteq> [] \<and> Y = bs @ Y'
             \<and> recv_inv A c' Y')"
proof -
  from recv_inv_ex [OF inv] rr obtain r r_end pcs fs where
    rc: "recv_cs (noise c) = Some r" and
    op: "opens A r (bufNoise c @ concat (map raw_bytes (ReadRaw_script (transport c)))) pcs r_end"
    and ok: "list_all frame_ok fs" and
    str: "bufRead c @ concat pcs = concat (map enc_frame fs)" and
    y: "Y = data_payloads fs"
    by auto
  note d = recv_invD [OF inv]
  from stream_head [OF t1 t2 str ok] obtain ty pl fs' br' where
    fs: "fs = (ty, pl) # fs'" and br: "bufRead c = enc_frame (ty, pl) @ br'" and
    str': "br' @ concat pcs = concat (map enc_frame fs')"
    by blast
  from ok fs have lp: "length pl < 2 ^ 32" and nf: "ty \<noteq> MsgTypeFin"
    and ne: "ty = MsgTypeData \<Longrightarrow> pl \<noteq> []" and ok': "list_all frame_ok fs'"
    by (auto simp: frame_ok_def)
  from br have brF: "bufRead c = BuildFrame [] (mkFrame ty pl) @ br'" by (simp add: enc_frame_eq)
  have rr0: "readRemain c \<le> 0" using rr by simp
  have st: "Read_step A now c n = Done (Read_frame now c n ty (int (length pl)))"
    by (rule Read_step_frame [OF d(1,2,8) rr0 brF lp])
  have d5: "drop 5 (bufRead c) = pl @ br'"
    using frame_header(4) [OF lp, of ty br'] by (simp only: brF)
  have dk: "drop (nat (5 + int (length pl))) (bufRead c) = br'"
  proof -
    have "nat (5 + int (length pl)) = 5 + length pl" by simp
    moreover have "drop (5 + length pl) (bufRead c) = drop (length pl) (drop 5 (bufRead c))"
      by (simp add: add.commute)
    ultimately show ?thesis by (simp only: d5) simp
  qed
  show ?thesis
  proof (cases "ty = MsgTypeData")
    case True
    let ?k = "nat (min (int (length pl)) (int n))"
    let ?bs = "take ?k pl"
    let ?c' = "c\<lparr>peerLastSeen := now, bufRead := drop ?k (pl @ br'),
                 readRemain := int (length pl) - int (length (take n (take ?k (pl @ br'))))\<rparr>"
    from ne [OF True] n have k0: "0 < ?k" by simp
    have kn: "?k \<le> n" by simp
    have kp: "?k \<le> length pl" by simp
    have "take ?k (pl @ br') = ?bs" using kp by simp
    with take_take_le [OF kn, of "pl @ br'"]
    have cp: "take n (take ?k (pl @ br')) = ?bs" by (simp only:)
    have lbs: "length ?bs = ?k" using kp by (simp only: length_take min_absorb2)
    have N1: "snd (Next (bufRead (c\<lparr>peerLastSeen := now\<rparr>)) FrameHeaderSize) = pl @ br'"
      by (simp add: Next_def FrameHeaderSize_def d5)
    have bne: "?bs \<noteq> []"
    proof
      assume "?bs = []"
      then have "length ?bs = 0" by (simp only: list.size)
      with lbs k0 show False by linarith
    qed
    have br1: "bufRead ?c' = drop ?k pl @ br'" using kp by simp
    have rf: "Read_frame now c n ty (int (length pl))
              = RStop (take n (take ?k (pl @ br'))) None ?c'"
      unfolding Read_frame_def Let_def N1 by (simp add: True Next_def)
    have rr1: "readRemain ?c' = int (length pl) - int ?k" by (simp only: cp lbs) simp
    have nr: "nat (readRemain ?c') = length pl - ?k" by (simp only: rr1 nat_sub_int nat_int)
    have inv': "recv_inv A ?c' (drop ?k pl @ data_payloads fs')"
    proof (rule recv_invI [where r = r and pcs = pcs and r_end = r_end and fs = fs'])
      show "drop (nat (readRemain ?c')) (bufRead ?c') @ concat pcs = concat (map enc_frame fs')"
        using str' by (simp only: nr br1) simp
      show "drop ?k pl @ data_payloads fs'
            = take (nat (readRemain ?c')) (bufRead ?c') @ data_payloads fs'"
        by (simp only: nr br1) simp
      show "nat (readRemain ?c') \<le> length (bufRead ?c')" by (simp only: nr br1) simp
      have "int ?k \<le> int (length pl)" by simp
      then show "0 \<le> readRemain ?c'" using rr1 by linarith
    qed (use d rc op ok' in simp_all)
    have "Y = ?bs @ (drop ?k pl @ data_payloads fs')"
      by (simp add: y fs data_payloads_Cons True)
    with st rf bne inv' show ?thesis by (simp only: cp) blast
  next
    case False
    have dk': "snd (Next (bufRead (c\<lparr>peerLastSeen := now\<rparr>)) (FrameHeaderSize + int (length pl)))
               = br'"
      using dk by (simp add: Next_def FrameHeaderSize_def)
    have "\<exists>c'. Read_frame now c n ty (int (length pl)) = RCont now c'
        \<and> bufRead c' = br' \<and> readRemain c' = readRemain c \<and> closed c' = closed c
        \<and> closedRead c' = closedRead c \<and> readDeadline c' = readDeadline c
        \<and> bufNoise c' = bufNoise c \<and> noise c' = noise c
        \<and> ReadRaw_script (transport c') = ReadRaw_script (transport c)"
      unfolding Read_frame_def Let_def dk'
      using False nf by (cases "rotator (transport c)") simp_all
    then obtain c' where rf: "Read_frame now c n ty (int (length pl)) = RCont now c'"
      and f: "bufRead c' = br'" "readRemain c' = readRemain c" "closed c' = closed c"
        "closedRead c' = closedRead c" "readDeadline c' = readDeadline c"
        "bufNoise c' = bufNoise c" "noise c' = noise c"
        "ReadRaw_script (transport c') = ReadRaw_script (transport c)"
      by blast
    have inv': "recv_inv A c' Y"
    proof (rule recv_invI [where r = r and pcs = pcs and r_end = r_end and fs = fs'])
      show "drop (nat (readRemain c')) (bufRead c') @ concat pcs = concat (map enc_frame fs')"
        using str' by (simp add: f rr)
      show "Y = take (nat (readRemain c')) (bufRead c') @ data_payloads fs'"
        by (simp add: f rr y fs data_payloads_Cons False)
    qed (use d rc op ok' in \<open>simp_all add: f rr\<close>)
    with st rf show ?thesis by (simp only:) blast
  qed
qed


lemma Read_step_inv_fetch:
  assumes inv: "recv_inv A c Y" and rr: "readRemain c = 0"
    and nT: "\<not> (FrameHeaderSize \<le> int (length (bufRead c))
             \<and> FrameHeaderSize + uint (Uint32 (take 4 (take 5 (bufRead c))))
                 \<le> int (length (bufRead c)))"
  shows "(Read_step A now c n = Pending \<and> Y = [])
       \<or> (\<exists>now' c'. Read_step A now c n = Done (RCont now' c') \<and> recv_inv A c' Y)"
proof -
  from recv_inv_ex [OF inv] rr obtain r r_end pcs fs where
    rc: "recv_cs (noise c) = Some r" and
    op: "opens A r (bufNoise c @ concat (map raw_bytes (ReadRaw_script (transport c)))) pcs r_end"
    and ok: "list_all frame_ok fs" and
    str: "bufRead c @ concat pcs = concat (map enc_frame fs)" and
    y: "Y = data_payloads fs"
    by auto
  note d = recv_invD [OF inv]
  have st: "Read_step A now c n = Read_fetch A now c"
    using d(1,2) d(8) [of now] rr nT by (auto simp: Read_step_def)
  show ?thesis
  proof (cases "ReadRaw_script (transport c)")
    case Nil
    have p: "Read_fetch A now c = Pending"
      by (simp add: Read_fetch_def ReadRaw_def Nil run_bind_def)
    from op Nil have "opens A r (bufNoise c) pcs r_end" by simp
    from opens_short [OF this d(6)] have "pcs = []" ..
    with str have br: "bufRead c = concat (map enc_frame fs)" by simp
    have "fs = []"
    proof (rule ccontr)
      assume "fs \<noteq> []"
      from stream_complete [OF br ok this] nT show False by simp
    qed
    then have "Y = []" by (simp add: y data_payloads_def)
    with st p show ?thesis by simp
  next
    case (Cons e es)
    let ?t = "(transport c)\<lparr>ReadRaw_script := es\<rparr>"
    have raw: "ReadRaw (transport c) = Done (e, ?t)" by (simp add: ReadRaw_def Cons)
    from d(5) Cons have oke: "raw_ok e" and okes: "list_all raw_ok es" by simp_all
    show ?thesis
    proof (cases e)
      case (RawErr err)
      with oke have err: "err = ErrNoData" by simp
      obtain slept pl where sl: "Sleep (poll c) = (slept, pl)" by (cases "Sleep (poll c)")
      let ?c' = "c\<lparr>transport := ?t, poll := pl\<rparr>"
      have f: "Read_fetch A now c
               = Done (RCont (now + (case slept of None \<Rightarrow> 0 | Some d \<Rightarrow> max 0 d)) ?c')"
        by (simp add: Read_fetch_def raw run_bind_def RawErr err sl Let_def)
      have inv': "recv_inv A ?c' Y"
      proof (rule recv_invI [where r = r and pcs = pcs and r_end = r_end and fs = fs])
        show "opens A r (bufNoise ?c' @ concat (map raw_bytes (ReadRaw_script (transport ?c'))))
                pcs r_end"
          using op by (simp add: Cons RawErr)
      qed (use d rc ok okes str y rr in simp_all)
      with st f show ?thesis by (simp only:) blast
    next
      case (RawStream bytes serr)
      with oke have se: "serr = None \<or> serr = Some EOF" by simp
      let ?c2 = "c\<lparr>transport := ?t, bufNoise := bufNoise c @ bytes\<rparr>"
      have op2: "opens A r (bufNoise ?c2 @ concat (map raw_bytes es)) pcs r_end"
        using op by (simp add: Cons RawStream)
      have rc2: "recv_cs (noise ?c2) = Some r" using rc by simp
      from unseal_loop_opens [OF op2 rc2] obtain pcs1 pcs2 r1 c3 where
        u: "unseal_loop A ?c2 = Done (None, c3)" "pcs = pcs1 @ pcs2"
          "bufRead c3 = bufRead ?c2 @ concat pcs1" "recv_cs (noise c3) = Some r1"
          "opens A r1 (bufNoise c3 @ concat (map raw_bytes es)) pcs2 r_end"
          "short_buf (bufNoise c3)"
          "transport c3 = transport ?c2" "closed c3 = closed ?c2"
          "closedRead c3 = closedRead ?c2" "readRemain c3 = readRemain ?c2"
          "readDeadline c3 = readDeadline ?c2"
        by blast
      let ?c' = "c3\<lparr>poll := Reset (poll c3)\<rparr>"
      have c2: "(c\<lparr>transport := ?t\<rparr>)\<lparr>bufNoise := bufNoise (c\<lparr>transport := ?t\<rparr>) @ bytes\<rparr> = ?c2"
        by simp
      have f: "Read_fetch A now c = Done (RCont now ?c')"
        using se u(1) by (auto simp: Read_fetch_def raw run_bind_def Let_def RawStream)
      have inv': "recv_inv A ?c' Y"
      proof (rule recv_invI [where r = r1 and pcs = pcs2 and r_end = r_end and fs = fs])
        show "opens A r1 (bufNoise ?c' @ concat (map raw_bytes (ReadRaw_script (transport ?c'))))
                pcs2 r_end"
          using u(5) by (simp add: u(7))
        show "drop (nat (readRemain ?c')) (bufRead ?c') @ concat pcs2
              = concat (map enc_frame fs)"
          using str by (simp add: u(2,3,10) rr)
        show "Y = take (nat (readRemain ?c')) (bufRead ?c') @ data_payloads fs"
          by (simp add: u(10) rr y)
      qed (use d ok okes u(4,6) rr in \<open>simp_all add: u(7-11)\<close>)
      with st f show ?thesis by (simp only:) blast
    qed
  qed
qed

text \<open>One iteration of \<open>Read\<close> on a receiving connection in the state above.\<close>

lemma Read_step_inv:
  assumes inv: "recv_inv A c Y" and n: "0 < n"
  shows "(Read_step A now c n = Pending \<and> Y = [])
       \<or> (\<exists>now' c'. Read_step A now c n = Done (RCont now' c') \<and> recv_inv A c' Y)
       \<or> (\<exists>bs c' Y'. Read_step A now c n = Done (RStop bs None c') \<and> bs \<noteq> [] \<and> Y = bs @ Y'
             \<and> recv_inv A c' Y')"
proof (cases "0 < readRemain c")
  case True
  from Read_step_inv_remain [OF inv n True, of now] show ?thesis by blast
next
  case False
  with recv_invD(4) [OF inv] have rr: "readRemain c = 0" by simp
  show ?thesis
  proof (cases "FrameHeaderSize \<le> int (length (bufRead c))
             \<and> FrameHeaderSize + uint (Uint32 (take 4 (take 5 (bufRead c))))
                 \<le> int (length (bufRead c))")
    case True
    then have t1: "FrameHeaderSize \<le> int (length (bufRead c))"
      and t2: "FrameHeaderSize + uint (Uint32 (take 4 (take 5 (bufRead c))))
                 \<le> int (length (bufRead c))"
      by blast+
    from Read_step_inv_frame [OF inv n rr t1 t2, of now] show ?thesis by blast
  next
    case False
    from Read_step_inv_fetch [OF inv rr False, of now n] show ?thesis by blast
  qed
qed

text \<open>
  A \<open>Read\<close> with a non-empty destination on such a connection returns the next bytes
  still to be delivered, at least one, or waits for the driver when none is left.
\<close>

lemma Read_inv:
  assumes "recv_inv A c Y" "0 < n"
  shows "(Read A now c n = Pending \<and> Y = [])
       \<or> (\<exists>bs c' Y'. Read A now c n = Done ((bs, None), c') \<and> bs \<noteq> [] \<and> Y = bs @ Y'
             \<and> recv_inv A c' Y')"
  using assms
proof (induction A now c n rule: Read.induct)
  case (1 A now c n)
  from Read_step_inv [OF "1.prems", of now]
  consider (p) "Read_step A now c n = Pending" "Y = []"
    | (c) now' c' where "Read_step A now c n = Done (RCont now' c')" "recv_inv A c' Y"
    | (s) bs c' Y' where "Read_step A now c n = Done (RStop bs None c')" "bs \<noteq> []"
        "Y = bs @ Y'" "recv_inv A c' Y'"
    by blast
  then show ?case
  proof cases
    case p
    then show ?thesis by (simp add: Read.simps [of A now c n])
  next
    case c
    have "Read A now c n = Read A now' c' n"
      by (simp add: Read.simps [of A now c n] c(1))
    with "1.IH" [OF c(1) refl c(2) "1.prems"(2)] show ?thesis by (simp only:)
  next
    case s
    have "Read A now c n = Done ((bs, None), c')"
      by (simp add: Read.simps [of A now c n] s(1))
    with s(2-4) show ?thesis by blast
  qed
qed

lemma Reads_inv:
  assumes "recv_inv A c Y" "list_all (\<lambda>call. 0 < snd call) calls"
  shows "\<exists>Y'. Y = Reads A c calls @ Y' \<and> (length Y \<le> length calls \<longrightarrow> Y' = [])"
  using assms
proof (induction calls arbitrary: c Y)
  case Nil
  then show ?case by simp
next
  case (Cons call calls)
  obtain now n where call: "call = (now, n)" by (cases call)
  with Cons.prems(2) have n: "0 < n" and rest: "list_all (\<lambda>call. 0 < snd call) calls"
    by simp_all
  from Read_inv [OF Cons.prems(1) n, of now]
  consider (p) "Read A now c n = Pending" "Y = []"
    | (s) bs c' Y1 where "Read A now c n = Done ((bs, None), c')" "bs \<noteq> []"
        "Y = bs @ Y1" "recv_inv A c' Y1"
    by blast
  then show ?case
  proof cases
    case p
    then show ?thesis by (simp add: call)
  next
    case s
    from Cons.IH [OF s(4) rest] obtain Y' where
      y: "Y1 = Reads A c' calls @ Y'" and e: "length Y1 \<le> length calls \<longrightarrow> Y' = []"
      by blast
    have r: "Reads A c (call # calls) = bs @ Reads A c' calls"
      by (simp add: call s(1))
    from s(2) have "0 < length bs" by simp
    with s(3) have "length Y1 < length Y" by simp
    with e have "length Y \<le> length (call # calls) \<longrightarrow> Y' = []" by simp
    moreover have "Y = Reads A c (call # calls) @ Y'"
      by (simp only: r s(3) append_assoc) (simp add: y [symmetric])
    ultimately show ?thesis by blast
  qed
qed

section \<open>Ordered delivery: the sending side\<close>

lemma SealData_sync:
  assumes "aead_sync A R" "send_cs nh = Some s" "R s r"
  shows "\<exists>ct s1 r1 nh'. SealData A nh pt = Done (Inr (PutUint32 (of_nat (length ct)) @ ct), nh')
           \<and> send_cs nh' = Some s1 \<and> Decrypt A r ct = (Inr pt, r1) \<and> R s1 r1
           \<and> length ct = length pt + 16"
proof -
  from assms(1,3) obtain ct s1 r1 where
    e: "Encrypt A s pt = (Inr ct, s1)" and l: "length ct = length pt + 16" and
    d: "Decrypt A r ct = (Inr pt, r1)" and r: "R s1 r1"
    unfolding aead_sync_def by blast
  let ?nh' = "if isInitiator nh then nh\<lparr>cs1 := Some s1\<rparr> else nh\<lparr>cs2 := Some s1\<rparr>"
  from EncryptData_send [OF assms(2) e]
  have "SealData A nh pt = Done (Inr (PutUint32 (of_nat (length ct)) @ ct), ?nh')"
    by (simp add: SealData_def)
  moreover have "send_cs ?nh' = Some s1" by (simp add: send_cs_def)
  ultimately show ?thesis using l d r by blast
qed

lemma flush_data_FCont:
  assumes sync: "aead_sync A R" and cs: "send_cs (noise c) = Some s" "R s r"
    and st: "flush_data A now m c = Done (FCont c1)"
  shows "\<exists>ct s1 r1. 0 \<le> min (int (length (bufWrite c))) m
     \<and> Decrypt A r ct = (Inr (take (nat (min (int (length (bufWrite c))) m)) (bufWrite c)), r1)
     \<and> length ct = length (take (nat (min (int (length (bufWrite c))) m)) (bufWrite c)) + 16
     \<and> R s1 r1 \<and> send_cs (noise c1) = Some s1
     \<and> WriteRaw_log (transport c1)
         = WriteRaw_log (transport c) @ [(PutUint32 (of_nat (length ct)) @ ct, None)]
     \<and> bufWrite c1 = drop (nat (min (int (length (bufWrite c))) m)) (bufWrite c)
     \<and> MaxRawSize (transport c1) = MaxRawSize (transport c) \<and> mtu c1 = mtu c"
proof -
  let ?k = "nat (min (int (length (bufWrite c))) m)"
  let ?pt = "take ?k (bufWrite c)"
  from flush_data_Done [OF st] obtain res nh where
    k0: "0 \<le> min (int (length (bufWrite c))) m" and
    sd: "SealData A (noise c) ?pt = Done (res, nh)" and
    cse: "case res of
          Inl err \<Rightarrow> FCont c1 = FStop (Some err) (c\<lparr>bufWrite := drop ?k (bufWrite c), noise := nh\<rparr>)
        | Inr sealed \<Rightarrow>
            (\<exists>w t. WriteRaw (transport c) sealed = Done (w, t)
               \<and> (case w of
                    Some err \<Rightarrow>
                      FCont c1 = FStop (Some err)
                        (c\<lparr>bufWrite := drop ?k (bufWrite c), noise := nh, transport := t\<rparr>)
                  | None \<Rightarrow>
                      FCont c1 = FCont
                        (c\<lparr>bufWrite := drop ?k (bufWrite c), noise := nh, transport := t,
                           lastActive := now\<rparr>)))"
    by blast
  from SealData_sync [OF sync cs, of ?pt] obtain ct s1 r1 nh' where
    sd': "SealData A (noise c) ?pt = Done (Inr (PutUint32 (of_nat (length ct)) @ ct), nh')" and
    sc: "send_cs nh' = Some s1" and dec: "Decrypt A r ct = (Inr ?pt, r1)" and r: "R s1 r1" and
    l: "length ct = length ?pt + 16"
    by blast
  from sd sd' have res: "res = Inr (PutUint32 (of_nat (length ct)) @ ct)" and nh: "nh = nh'"
    by simp_all
  from cse res obtain w t where
    wr: "WriteRaw (transport c) (PutUint32 (of_nat (length ct)) @ ct) = Done (w, t)" and
    cw: "case w of
           Some err \<Rightarrow>
             FCont c1 = FStop (Some err)
               (c\<lparr>bufWrite := drop ?k (bufWrite c), noise := nh, transport := t\<rparr>)
         | None \<Rightarrow>
             FCont c1 = FCont
               (c\<lparr>bufWrite := drop ?k (bufWrite c), noise := nh, transport := t,
                  lastActive := now\<rparr>)"
    by auto
  from cw have w: "w = None" by (cases w) simp_all
  with cw have c1: "c1 = c\<lparr>bufWrite := drop ?k (bufWrite c), noise := nh, transport := t,
                  lastActive := now\<rparr>" by simp
  from WriteRaw_Done [OF wr] w have
    lg: "WriteRaw_log t = WriteRaw_log (transport c) @ [(PutUint32 (of_nat (length ct)) @ ct, None)]"
    and mx: "MaxRawSize t = MaxRawSize (transport c)" by simp_all
  show ?thesis
    using k0 dec l r sc lg mx
    by (intro exI [of _ ct] exI [of _ s1] exI [of _ r1]) (simp add: c1 nh)
qed

lemma flush_rotate_FCont:
  assumes sync: "aead_sync A R" and cs: "send_cs (noise c) = Some s" "R s r"
    and st: "flush_rotate A c = Done (FCont c1)"
  shows "\<exists>ct s1 r1.
       Decrypt A r ct = (Inr (BuildFrame [] (mkFrame MsgTypeRotate [])), r1)
     \<and> length ct = length (BuildFrame [] (mkFrame MsgTypeRotate [])) + 16
     \<and> R s1 r1 \<and> send_cs (noise c1) = Some s1
     \<and> WriteRaw_log (transport c1)
         = WriteRaw_log (transport c) @ [(PutUint32 (of_nat (length ct)) @ ct, None)]
     \<and> bufWrite c1 = bufWrite c
     \<and> MaxRawSize (transport c1) = MaxRawSize (transport c) \<and> mtu c1 = mtu c"
proof -
  let ?pt = "BuildFrame [] (mkFrame MsgTypeRotate [])"
  from flush_rotate_Done [OF st] obtain res nh where
    sd: "SealData A (noise c) ?pt = Done (res, nh)" and
    cse: "case res of
          Inl err \<Rightarrow> FCont c1 = FStop (Some err) (c\<lparr>noise := nh\<rparr>)
        | Inr sealed \<Rightarrow>
            (\<exists>w t. WriteRaw (transport c) sealed = Done (w, t)
               \<and> (case w of
                    Some err \<Rightarrow> FCont c1 = FStop (Some err) (c\<lparr>noise := nh, transport := t\<rparr>)
                  | None \<Rightarrow>
                      (\<exists>r rerr r'. rotator t = Some r \<and> RotateTX r = Done (rerr, r')
                         \<and> (case rerr of
                              Some err \<Rightarrow>
                                FCont c1 = FStop (Some err)
                                  (c\<lparr>noise := nh, transport := t\<lparr>rotator := Some r'\<rparr>\<rparr>)
                            | None \<Rightarrow>
                                FCont c1 = FCont
                                  (c\<lparr>noise := nh, transport := t\<lparr>rotator := Some r'\<rparr>\<rparr>)))))"
    by blast
  from SealData_sync [OF sync cs, of ?pt] obtain ct s1 r1 nh' where
    sd': "SealData A (noise c) ?pt = Done (Inr (PutUint32 (of_nat (length ct)) @ ct), nh')" and
    sc: "send_cs nh' = Some s1" and dec: "Decrypt A r ct = (Inr ?pt, r1)" and r: "R s1 r1" and
    l: "length ct = length ?pt + 16"
    by blast
  from sd sd' have res: "res = Inr (PutUint32 (of_nat (length ct)) @ ct)" and nh: "nh = nh'"
    by simp_all
  from cse res obtain w t where
    wr: "WriteRaw (transport c) (PutUint32 (of_nat (length ct)) @ ct) = Done (w, t)" and
    cw: "case w of
           Some err \<Rightarrow> FCont c1 = FStop (Some err) (c\<lparr>noise := nh, transport := t\<rparr>)
         | None \<Rightarrow>
             (\<exists>r rerr r'. rotator t = Some r \<and> RotateTX r = Done (rerr, r')
                \<and> (case rerr of
                     Some err \<Rightarrow>
                       FCont c1 = FStop (Some err)
                         (c\<lparr>noise := nh, transport := t\<lparr>rotator := Some r'\<rparr>\<rparr>)
                   | None \<Rightarrow>
                       FCont c1 = FCont
                         (c\<lparr>noise := nh, transport := t\<lparr>rotator := Some r'\<rparr>\<rparr>)))"
    by auto
  from cw have w: "w = None" by (cases w) simp_all
  with cw obtain rerr r' where
    cr: "case rerr of
           Some err \<Rightarrow>
             FCont c1 = FStop (Some err) (c\<lparr>noise := nh, transport := t\<lparr>rotator := Some r'\<rparr>\<rparr>)
         | None \<Rightarrow> FCont c1 = FCont (c\<lparr>noise := nh, transport := t\<lparr>rotator := Some r'\<rparr>\<rparr>)"
    by auto
  then have "rerr = None" by (cases rerr) simp_all
  with cr have c1: "c1 = c\<lparr>noise := nh, transport := t\<lparr>rotator := Some r'\<rparr>\<rparr>" by simp
  from WriteRaw_Done [OF wr] w have
    lg: "WriteRaw_log t = WriteRaw_log (transport c) @ [(PutUint32 (of_nat (length ct)) @ ct, None)]"
    and mx: "MaxRawSize t = MaxRawSize (transport c)" by simp_all
  show ?thesis
    using dec l r sc lg mx
    by (intro exI [of _ ct] exI [of _ s1] exI [of _ r1]) (simp add: c1 nh)
qed

text \<open>
  An iteration of \<open>flush\<close> that goes on has written one sealed chunk that the peer's
  cipher opens: a ROTATE frame, or the next bytes of the write buffer.
\<close>

lemma flush_step_FCont:
  assumes sync: "aead_sync A R" and cs: "send_cs (noise c) = Some s" "R s r"
    and st: "flush_step A now c = Done (FCont c1)"
  shows "\<exists>pt ct s1 r1. Decrypt A r ct = (Inr pt, r1) \<and> length ct = length pt + 16
     \<and> R s1 r1 \<and> send_cs (noise c1) = Some s1
     \<and> WriteRaw_log (transport c1)
         = WriteRaw_log (transport c) @ [(PutUint32 (of_nat (length ct)) @ ct, None)]
     \<and> MaxRawSize (transport c1) = MaxRawSize (transport c) \<and> mtu c1 = mtu c
     \<and> bufWrite c \<noteq> []
     \<and> ((pt = BuildFrame [] (mkFrame MsgTypeRotate []) \<and> bufWrite c1 = bufWrite c)
        \<or> (0 \<le> min (int (length (bufWrite c))) (MaxRawSize (transport c) - NoiseOverhead)
           \<and> pt = take (nat (min (int (length (bufWrite c)))
                                (MaxRawSize (transport c) - NoiseOverhead))) (bufWrite c)
           \<and> bufWrite c1 = drop (nat (min (int (length (bufWrite c)))
                                (MaxRawSize (transport c) - NoiseOverhead))) (bufWrite c)))"
proof -
  have ne: "bufWrite c \<noteq> []" using st by (auto simp: flush_step_def)
  then have l0: "length (bufWrite c) \<noteq> 0" by simp
  let ?m = "MaxRawSize (transport c) - NoiseOverhead"
  show ?thesis
  proof (cases "rotator (transport c)")
    case None
    with st l0 have "flush_data A now ?m c = Done (FCont c1)"
      by (simp add: flush_step_def Let_def)
    from flush_data_FCont [OF sync cs this] ne show ?thesis by blast
  next
    case (Some rt)
    with st l0 obtain b rt' where sr: "ShouldRotate rt = Done (b, rt')" and
      st': "(if b then flush_rotate A (c\<lparr>transport := (transport c)\<lparr>rotator := Some rt'\<rparr>\<rparr>)
           else flush_data A now ?m (c\<lparr>transport := (transport c)\<lparr>rotator := Some rt'\<rparr>\<rparr>))
            = Done (FCont c1)"
      by (auto simp: flush_step_def Let_def run_bind_def split: run.splits prod.splits)
    let ?c' = "c\<lparr>transport := (transport c)\<lparr>rotator := Some rt'\<rparr>\<rparr>"
    have cs': "send_cs (noise ?c') = Some s" using cs(1) by simp
    have e: "bufWrite ?c' = bufWrite c" "WriteRaw_log (transport ?c') = WriteRaw_log (transport c)"
      "MaxRawSize (transport ?c') = MaxRawSize (transport c)" "mtu ?c' = mtu c"
      by simp_all
    show ?thesis
    proof (cases b)
      case True
      with st' have "flush_rotate A ?c' = Done (FCont c1)" by simp
      from flush_rotate_FCont [OF sync cs' cs(2) this, unfolded e] ne show ?thesis
        by blast
    next
      case False
      with st' have "flush_data A now ?m ?c' = Done (FCont c1)" by simp
      from flush_data_FCont [OF sync cs' cs(2) this, unfolded e] ne show ?thesis
        by blast
    qed
  qed
qed

lemma flush_step_FStop_None:
  assumes "flush_step A now c = Done (FStop None c1)"
  shows "bufWrite c = [] \<and> c1 = c"
  using assms
  by (auto simp: flush_step_def flush_rotate_def flush_data_def run_bind_def Let_def Next_def
      split: if_splits option.splits run.splits prod.splits sum.splits)


lemma data_frames_Cons:
  "data_frames (d # ds) = enc_frame (MsgTypeData, d) @ data_frames ds"
  by (simp add: data_frames_def enc_frame_def)

lemma data_frames_Nil: "data_frames [] = []"
  by (simp add: data_frames_def)

text \<open>
  The write buffer left by \<open>Write\<close> holds the frames of the pieces of its argument, and
  \<open>maxChunk = mtu + 5\<close> bytes of it are exactly the first frame.
\<close>

lemma data_frames_take:
  assumes m: "0 < m" and x: "x \<noteq> []"
  shows "take (nat (min (int (length (data_frames (chunks m x)))) (int m + 5)))
           (data_frames (chunks m x)) = enc_frame (MsgTypeData, take m x)
       \<and> drop (nat (min (int (length (data_frames (chunks m x)))) (int m + 5)))
           (data_frames (chunks m x)) = data_frames (chunks m (drop m x))"
proof -
  let ?F = "enc_frame (MsgTypeData, take m x)"
  let ?Rest = "data_frames (chunks m (drop m x))"
  have b: "data_frames (chunks m x) = ?F @ ?Rest"
    by (simp add: chunks_Cons [OF m x] data_frames_Cons)
  have lF: "length ?F = 5 + min (length x) m" by (simp add: length_enc_frame)
  have k: "nat (min (int (length (?F @ ?Rest))) (int m + 5)) = length ?F"
  proof (cases "length x \<le> m")
    case True
    then have "drop m x = []" by simp
    then have "?Rest = []" by (simp add: chunks_Nil data_frames_Nil)
    with True lF show ?thesis by simp
  next
    case False
    with lF have "length ?F = 5 + m" by simp
    then show ?thesis by simp
  qed
  show ?thesis by (simp only: b k) simp
qed

lemma data_payloads_Nil: "data_payloads [] = []"
  by (simp add: data_payloads_def)

lemma data_payloads_append: "data_payloads (fs @ gs) = data_payloads fs @ data_payloads gs"
  by (simp add: data_payloads_def)

lemma length_rotate_frame: "length (BuildFrame [] (mkFrame MsgTypeRotate [])) = 5"
  using length_enc_frame [of MsgTypeRotate "[]"] by (simp add: enc_frame_eq)

text \<open>
  A \<open>flush\<close> that succeeds on a write buffer holding the frames of \<open>x\<close> puts on the wire
  sealed chunks that the peer's cipher opens to whole frames: the DATA frames of \<open>x\<close>, in
  order, with ROTATE frames in between.
\<close>

lemma flush_frames:
  assumes sync: "aead_sync A R" and fl: "flush A now c = Done (None, c')"
    and cs: "send_cs (noise c) = Some s" "R s r"
    and m: "x = [] \<or> 0 < m" "MaxRawSize (transport c) - NoiseOverhead = m + 5"
      "MaxRawSize (transport c) < 2 ^ 32 + 4"
    and buf: "bufWrite c = data_frames (chunks (nat m) x)"
  shows "\<exists>new fs s' r'. WriteRaw_log (transport c') = WriteRaw_log (transport c) @ new
          \<and> opens A r (concat (map fst new)) (map enc_frame fs) r'
          \<and> list_all frame_ok fs \<and> data_payloads fs = x
          \<and> send_cs (noise c') = Some s' \<and> R s' r'
          \<and> bufWrite c' = [] \<and> MaxRawSize (transport c') = MaxRawSize (transport c)
          \<and> mtu c' = mtu c"
  using sync fl cs m buf
proof (induction A now c arbitrary: x s r rule: flush.induct)
  case (1 A now c)
  note sync = "1.prems"(1) and fl = "1.prems"(2) and cs = "1.prems"(3,4)
    and m = "1.prems"(5,6,7) and buf = "1.prems"(8)
  show ?case
  proof (cases "flush_step A now c")
    case (Done st)
    show ?thesis
    proof (cases st)
      case (FStop e c1)
      with Done fl have e: "e = None" and c1: "c1 = c'"
        by (simp_all add: flush.simps [of A now c])
      from Done FStop e c1 have "flush_step A now c = Done (FStop None c')" by simp
      from flush_step_FStop_None [OF this] have b0: "bufWrite c = []" and cc: "c' = c" by simp_all
      have "x = []"
      proof (rule ccontr)
        assume ne: "x \<noteq> []"
        with m(1) have "0 < nat m" by simp
        from data_frames_take [OF this ne] buf b0 show False
          by (simp add: enc_frame_eq BuildFrame_append mkFrame_def)
      qed
      with cs b0 show ?thesis
        by (intro exI [of _ "[]"] exI [of _ s] exI [of _ r])
           (simp add: cc opens.opens_Nil data_payloads_Nil)
    next
      case (FCont c1)
      with Done have st: "flush_step A now c = Done (FCont c1)" by simp
      with fl have fl1: "flush A now c1 = Done (None, c')"
        by (simp add: flush.simps [of A now c])
      let ?mc = "MaxRawSize (transport c) - NoiseOverhead"
      let ?k = "nat (min (int (length (bufWrite c))) ?mc)"
      from flush_step_FCont [OF sync cs st] obtain pt ct s1 r1 where
        dec: "Decrypt A r ct = (Inr pt, r1)" and lct: "length ct = length pt + 16" and
        r1: "R s1 r1" and sc1: "send_cs (noise c1) = Some s1" and
        lg: "WriteRaw_log (transport c1)
             = WriteRaw_log (transport c) @ [(PutUint32 (of_nat (length ct)) @ ct, None)]" and
        mx: "MaxRawSize (transport c1) = MaxRawSize (transport c)" and mt: "mtu c1 = mtu c" and
        ne: "bufWrite c \<noteq> []" and
        alt: "(pt = BuildFrame [] (mkFrame MsgTypeRotate []) \<and> bufWrite c1 = bufWrite c)
              \<or> (0 \<le> min (int (length (bufWrite c))) ?mc \<and> pt = take ?k (bufWrite c)
                 \<and> bufWrite c1 = drop ?k (bufWrite c))"
        by blast
      have xne: "x \<noteq> []"
      proof
        assume "x = []"
        with buf ne show False by (simp add: chunks_Nil data_frames_Nil)
      qed
      with m(1) have m0: "0 < m" by simp
      then have nm0: "0 < nat m" by simp
      have mb: "m + 21 < 2 ^ 32" using m(2,3) by (simp add: NoiseOverhead_def)
      have m1: "MaxRawSize (transport c1) - NoiseOverhead = m + 5" using m(2) by (simp only: mx)
      have m2: "MaxRawSize (transport c1) < 2 ^ 32 + 4" using m(3) by (simp only: mx)
      from alt consider
        (rot) "pt = BuildFrame [] (mkFrame MsgTypeRotate [])" "bufWrite c1 = bufWrite c"
        | (dat) "pt = take ?k (bufWrite c)" "bufWrite c1 = drop ?k (bufWrite c)"
        by blast
      then obtain f x1 where
        pt: "pt = enc_frame f" and fok: "frame_ok f" and
        b1: "bufWrite c1 = data_frames (chunks (nat m) x1)" and
        xx: "x = data_payloads [f] @ x1" and lpt: "int (length pt) \<le> m + 5"
      proof cases
        case rot
        show ?thesis
        proof (rule that [of "(MsgTypeRotate, [])" x])
          show "pt = enc_frame (MsgTypeRotate, [])" by (simp add: rot(1) enc_frame_eq)
          show "frame_ok (MsgTypeRotate, [])"
            by (simp add: frame_ok_def MsgTypeRotate_def MsgTypeFin_def MsgTypeData_def)
          show "bufWrite c1 = data_frames (chunks (nat m) x)" by (simp only: rot(2) buf)
          show "x = data_payloads [(MsgTypeRotate, [])] @ x"
            by (simp add: data_payloads_def MsgTypeRotate_def MsgTypeData_def)
          show "int (length pt) \<le> m + 5" using m0 by (simp add: rot(1) length_rotate_frame)
        qed
      next
        case dat
        have im: "int (nat m) + 5 = ?mc" using m0 m(2) by simp
        note tk = data_frames_take [OF nm0 xne, unfolded im, folded buf]
        show ?thesis
        proof (rule that [of "(MsgTypeData, take (nat m) x)" "drop (nat m) x"])
          show "pt = enc_frame (MsgTypeData, take (nat m) x)"
            using tk by (simp only: dat(1))
          show "frame_ok (MsgTypeData, take (nat m) x)"
            using xne nm0 mb by (simp add: frame_ok_def MsgTypeFin_def MsgTypeData_def)
          show "bufWrite c1 = data_frames (chunks (nat m) (drop (nat m) x))"
            using tk by (simp only: dat(2))
          show "x = data_payloads [(MsgTypeData, take (nat m) x)] @ drop (nat m) x"
            by (simp add: data_payloads_def)
          have "pt = enc_frame (MsgTypeData, take (nat m) x)"
            using tk by (simp only: dat(1))
          then show "int (length pt) \<le> m + 5" using m0 by (simp add: length_enc_frame)
        qed
      qed
      have m1': "x1 = [] \<or> 0 < m" using m0 by simp
      from "1.IH" [OF st refl sync fl1 sc1 r1 m1' m1 m2 b1] obtain new fs s' r' where
        ih: "WriteRaw_log (transport c') = WriteRaw_log (transport c1) @ new"
          "opens A r1 (concat (map fst new)) (map enc_frame fs) r'"
          "list_all frame_ok fs" "data_payloads fs = x1"
          "send_cs (noise c') = Some s'" "R s' r'" "bufWrite c' = []"
          "MaxRawSize (transport c') = MaxRawSize (transport c1)" "mtu c' = mtu c1"
        by blast
      have l32: "length ct < 2 ^ 32"
      proof -
        from lpt lct have "int (length ct) \<le> m + 21" by simp
        with mb have "int (length ct) < int (2 ^ 32)" by simp
        then show ?thesis by (simp only: of_nat_less_iff)
      qed
      let ?new = "(PutUint32 (of_nat (length ct)) @ ct, None) # new"
      have op: "opens A r (concat (map fst ?new)) (map enc_frame (f # fs)) r'"
        using opens.opens_Cons [OF dec l32 ih(2)] by (simp add: pt)
      have lg': "WriteRaw_log (transport c') = WriteRaw_log (transport c) @ ?new"
        by (simp add: ih(1) lg)
      have dp: "data_payloads (f # fs) = x"
        using data_payloads_append [of "[f]" fs] by (simp add: xx ih(4))
      show ?thesis
        using lg' op fok ih(3) dp ih(5,6,7) ih(8,9) mx mt
        by (intro exI [of _ ?new] exI [of _ "f # fs"] exI [of _ s'] exI [of _ r']) simp
    qed
  qed (use fl in \<open>simp_all add: flush.simps [of A now c]\<close>)
qed


lemma Write_frames:
  assumes sync: "aead_sync A R" and wr: "Write A now c x = Done ((n, None), c')"
    and cs: "send_cs (noise c) = Some s" "R s r"
    and b0: "bufWrite c = []"
    and mt: "mtu c = MaxRawSize (transport c) - NoiseOverhead - FrameHeaderSize"
    and mx: "MaxRawSize (transport c) < 2 ^ 32 + 4"
  shows "\<exists>new fs s' r'. WriteRaw_log (transport c') = WriteRaw_log (transport c) @ new
          \<and> opens A r (concat (map fst new)) (map enc_frame fs) r'
          \<and> list_all frame_ok fs \<and> data_payloads fs = x
          \<and> send_cs (noise c') = Some s' \<and> R s' r'
          \<and> bufWrite c' = [] \<and> MaxRawSize (transport c') = MaxRawSize (transport c)
          \<and> mtu c' = mtu c"
proof -
  from wr obtain wb where wl: "Write_loop (mtu c) (bufWrite c) x = Done wb" and
    fl: "flush A now (c\<lparr>bufWrite := wb\<rparr>) = Done (None, c')"
    by (auto simp: Write_def run_bind_def Let_def
        split: if_splits run.splits prod.splits option.splits)
  from Write_loop_Done [OF wl] obtain ds where
    ds: "concat ds = x" "\<forall>d \<in> set ds. 0 < length d \<and> int (length d) \<le> mtu c"
    by blast
  have m1: "x = [] \<or> 0 < mtu c"
  proof (cases "x = []")
    case False
    with ds(1) obtain d where "d \<in> set ds" by (cases ds) auto
    with ds(2) have "0 < int (length d)" "int (length d) \<le> mtu c" by simp_all
    then have "0 < mtu c" by linarith
    then show ?thesis ..
  qed simp
  have wb: "wb = data_frames (chunks (nat (mtu c)) x)"
  proof (cases "x = []")
    case True
    with wl b0 show ?thesis by (simp add: Write_loop_Nil chunks_Nil data_frames_Nil)
  next
    case False
    with m1 have "0 < mtu c" by simp
    from Write_loop_chunks [OF this, of "bufWrite c" x] wl b0 show ?thesis by simp
  qed
  let ?c = "c\<lparr>bufWrite := wb\<rparr>"
  have cs': "send_cs (noise ?c) = Some s" using cs(1) by simp
  have m2: "MaxRawSize (transport ?c) - NoiseOverhead = mtu c + 5"
    using mt by (simp add: FrameHeaderSize_def)
  have m3: "MaxRawSize (transport ?c) < 2 ^ 32 + 4" using mx by simp
  have bw: "bufWrite ?c = data_frames (chunks (nat (mtu c)) x)" using wb by simp
  from flush_frames [OF sync fl cs' cs(2) m1 m2 m3 bw] show ?thesis by simp
qed

lemma Writes_frames:
  assumes sync: "aead_sync A R" and ws: "Writes A c ws = Done (ress, c')"
    and ok: "list_all (\<lambda>res. snd res = None) ress"
    and cs: "send_cs (noise c) = Some s" "R s r"
    and b0: "bufWrite c = []"
    and mt: "mtu c = MaxRawSize (transport c) - NoiseOverhead - FrameHeaderSize"
    and mx: "MaxRawSize (transport c) < 2 ^ 32 + 4"
  shows "\<exists>new fs r'. WriteRaw_log (transport c') = WriteRaw_log (transport c) @ new
          \<and> opens A r (concat (map fst new)) (map enc_frame fs) r'
          \<and> list_all frame_ok fs \<and> data_payloads fs = concat (map snd ws)"
  using ws ok cs b0 mt mx
proof (induction ws arbitrary: c ress s r)
  case Nil
  then have "c' = c" by simp
  then show ?case
    by (intro exI [of _ "[]"] exI [of _ r]) (simp add: opens.opens_Nil data_payloads_Nil)
next
  case (Cons w ws)
  obtain now x where w: "w = (now, x)" by (cases w)
  from Cons.prems(1) obtain res1 c1 ress' where
    w1: "Write A now c x = Done (res1, c1)" and w2: "Writes A c1 ws = Done (ress', c')" and
    rs: "ress = res1 # ress'"
    by (auto simp: w run_bind_def split: run.splits prod.splits)
  from Cons.prems(2) rs have e1: "snd res1 = None" and ok': "list_all (\<lambda>res. snd res = None) ress'"
    by simp_all
  from e1 obtain n where "res1 = (n, None)" by (cases res1) simp
  with w1 have w1': "Write A now c x = Done ((n, None), c1)" by simp
  from Write_frames [OF sync w1' Cons.prems(3,4,5,6,7)] obtain new1 fs1 s1 r1 where
    a: "WriteRaw_log (transport c1) = WriteRaw_log (transport c) @ new1"
      "opens A r (concat (map fst new1)) (map enc_frame fs1) r1"
      "list_all frame_ok fs1" "data_payloads fs1 = x"
      "send_cs (noise c1) = Some s1" "R s1 r1" "bufWrite c1 = []"
      "MaxRawSize (transport c1) = MaxRawSize (transport c)" "mtu c1 = mtu c"
    by blast
  have mt1: "mtu c1 = MaxRawSize (transport c1) - NoiseOverhead - FrameHeaderSize"
    using Cons.prems(6) by (simp only: a(8,9))
  have mx1: "MaxRawSize (transport c1) < 2 ^ 32 + 4" using Cons.prems(7) by (simp only: a(8))
  from Cons.IH [OF w2 ok' a(5,6,7) mt1 mx1] obtain new2 fs2 r2 where
    b: "WriteRaw_log (transport c') = WriteRaw_log (transport c1) @ new2"
      "opens A r1 (concat (map fst new2)) (map enc_frame fs2) r2"
      "list_all frame_ok fs2" "data_payloads fs2 = concat (map snd ws)"
    by blast
  have op: "opens A r (concat (map fst (new1 @ new2))) (map enc_frame (fs1 @ fs2)) r2"
    using opens_append [OF a(2) b(2)] by simp
  show ?case
    using op a(1,3,4) b(1,3,4)
    by (intro exI [of _ "new1 @ new2"] exI [of _ "fs1 @ fs2"] exI [of _ r2])
       (simp add: data_payloads_append w)
qed

text \<open>
  C1.  Ordered reliable delivery.  Let \<open>a\<close> and \<open>b\<close> be the two ends of an established
  connection (the cipher keeps the sending state of \<open>a\<close> and the receiving state of \<open>b\<close> in
  step), \<open>a\<close> with an empty write buffer, the \<open>mtu\<close> that \<open>newConn\<close> computes and a driver
  whose \<open>MaxRawSize\<close> is below \<open>2 ^ 32 + 4\<close>, \<open>b\<close> with empty buffers, open and without a
  read deadline.  If the calls \<open>Write(x1), \<dots>, Write(xk)\<close> on \<open>a\<close> all return without an
  error, and the driver hands to \<open>b\<close> the bytes written, in order, in streams of any
  sizes read to their end, with any number of "no data" answers in between, then the
  bytes returned by successive calls of \<open>Read\<close> on \<open>b\<close> with non-empty destinations are a
  prefix of \<open>x1 \<dots> xk\<close>, and they are all of \<open>x1 \<dots> xk\<close> once there are at least as
  many calls as bytes.
\<close>

theorem ordered_delivery:
  assumes "aead_sync A R" and "session_pair R (noise a) (noise b)"
    and "bufWrite a = []"
    and "mtu a = MaxRawSize (transport a) - NoiseOverhead - FrameHeaderSize"
    and "MaxRawSize (transport a) < 2 ^ 32 + 4"
    and "Writes A a ws = Done (ress, a')" and "list_all (\<lambda>res. snd res = None) ress"
    and "bufRead b = []" and "bufNoise b = []" and "readRemain b = 0"
    and "\<not> closed b" and "\<not> closedRead b" and "readDeadline b = None"
    and "list_all raw_ok (ReadRaw_script (transport b))"
    and "concat (map raw_bytes (ReadRaw_script (transport b))) = wire a a'"
    and "list_all (\<lambda>call. 0 < snd call) calls"
  shows "\<exists>rest. concat (map snd ws) = Reads A b calls @ rest
           \<and> (length (concat (map snd ws)) \<le> length calls \<longrightarrow> rest = [])"
proof -
  from assms(2) obtain s r where
    cs: "send_cs (noise a) = Some s" "R s r" and rc: "recv_cs (noise b) = Some r"
    by (auto simp: session_pair_def)
  from Writes_frames [OF assms(1,6,7) cs assms(3,4,5)] obtain new fs r' where
    lg: "WriteRaw_log (transport a') = WriteRaw_log (transport a) @ new" and
    op: "opens A r (concat (map fst new)) (map enc_frame fs) r'" and
    ok: "list_all frame_ok fs" and dp: "data_payloads fs = concat (map snd ws)"
    by blast
  have w: "wire a a' = concat (map fst new)" by (simp add: wire_def lg)
  have inv: "recv_inv A b (concat (map snd ws))"
  proof (rule recv_invI [where r = r and pcs = "map enc_frame fs" and r_end = r' and fs = fs])
    show "opens A r (bufNoise b @ concat (map raw_bytes (ReadRaw_script (transport b))))
            (map enc_frame fs) r'"
      using op by (simp add: assms(9,15) w)
    show "short_buf (bufNoise b)" by (simp add: assms(9) short_buf_def)
  qed (use assms rc ok dp in simp_all)
  from Reads_inv [OF inv assms(16)] show ?thesis .
qed

lemma ex_sender_Writes:
  "Writes demo_cipher ex_sender ex_writes = Done ([(4, None), (1, None)], ex_sent)"
  by code_simp

theorem ordered_delivery_witness:
  "aead_sync demo_cipher (=) \<and> session_pair (=) (noise ex_sender) (noise ex_receiver)
   \<and> bufWrite ex_sender = []
   \<and> mtu ex_sender = MaxRawSize (transport ex_sender) - NoiseOverhead - FrameHeaderSize
   \<and> MaxRawSize (transport ex_sender) < 2 ^ 32 + 4
   \<and> Writes demo_cipher ex_sender ex_writes = Done ([(4, None), (1, None)], ex_sent)
   \<and> list_all (\<lambda>res. snd res = None) [(4 :: int, None :: error option), (1, None)]
   \<and> bufRead ex_receiver = [] \<and> bufNoise ex_receiver = [] \<and> readRemain ex_receiver = 0
   \<and> \<not> closed ex_receiver \<and> \<not> closedRead ex_receiver \<and> readDeadline ex_receiver = None
   \<and> list_all raw_ok (ReadRaw_script (transport ex_receiver))
   \<and> concat (map raw_bytes (ReadRaw_script (transport ex_receiver))) = wire ex_sender ex_sent
   \<and> list_all (\<lambda>call. 0 < snd call) ex_calls
   \<and> (\<exists>rest. concat (map snd ex_writes) = Reads demo_cipher ex_receiver ex_calls @ rest
         \<and> (length (concat (map snd ex_writes)) \<le> length ex_calls \<longrightarrow> rest = []))
   \<and> Reads demo_cipher ex_receiver ex_calls = [1, 2, 3, 4, 5]"
proof -
  have h2: "session_pair (=) (noise ex_sender) (noise ex_receiver)"
    using session_pair_demo by (simp add: ex_sender_def ex_receiver_def ex_conn_def newConn_def)
  have h3: "bufWrite ex_sender = []" by code_simp
  have h4: "mtu ex_sender = MaxRawSize (transport ex_sender) - NoiseOverhead - FrameHeaderSize"
    by code_simp
  have h5: "MaxRawSize (transport ex_sender) < 2 ^ 32 + 4"
    by (simp add: ex_sender_def ex_conn_def newConn_def ex_transport_def)
  have h7: "list_all (\<lambda>res. snd res = None) [(4 :: int, None :: error option), (1, None)]"
    by simp
  have h8: "bufRead ex_receiver = []" by code_simp
  have h9: "bufNoise ex_receiver = []" by code_simp
  have h10: "readRemain ex_receiver = 0" by code_simp
  have h11: "\<not> closed ex_receiver" by code_simp
  have h12: "\<not> closedRead ex_receiver" by code_simp
  have h13: "readDeadline ex_receiver = None" by code_simp
  have h14: "list_all raw_ok (ReadRaw_script (transport ex_receiver))" by code_simp
  have h15: "concat (map raw_bytes (ReadRaw_script (transport ex_receiver)))
             = wire ex_sender ex_sent" by code_simp
  have h16: "list_all (\<lambda>call. 0 < snd call) ex_calls" by code_simp
  note t = ordered_delivery [OF aead_sync_demo h2 h3 h4 h5 ex_sender_Writes h7 h8 h9 h10 h11
      h12 h13 h14 h15 h16]
  have r: "Reads demo_cipher ex_receiver ex_calls = [1, 2, 3, 4, 5]" by code_simp
  show ?thesis
    by (intro conjI aead_sync_demo h2 h3 h4 h5 ex_sender_Writes h7 h8 h9 h10 h11 h12 h13 h14
        h15 h16 t r)
qed


lemma length_ex_big_data: "length ex_big_data = 2 ^ 32 - 21"
  by (simp add: ex_big_data_def)

lemma length_ex_big_plain: "length ex_big_plain = 2 ^ 32 - 16"
  by (simp add: ex_big_plain_def length_ex_big_data)

lemma ex_big_frame: "BuildFrame [] (mkFrame MsgTypeData ex_big_data) = ex_big_plain"
  by (simp add: BuildFrame_append mkFrame_def PutUint32_def length_ex_big_data MsgTypeData_def
      ex_big_plain_def)

lemma ex_big_fields:
  "mtu ex_big = 2 ^ 32 - 21" "bufWrite ex_big = []" "\<not> closed ex_big" "\<not> closedWrite ex_big"
  "writeDeadline ex_big = None" "rotator (transport ex_big) = None"
  "MaxRawSize (transport ex_big) = 2 ^ 32 + 4" "WriteRaw_script (transport ex_big) = [None]"
  "WriteRaw_log (transport ex_big) = []" "noise ex_big = demo_initiator"
  by (simp_all add: ex_big_def ex_conn_def newConn_def ex_transport_def NoiseOverhead_def
      FrameHeaderSize_def)

lemma ex_big_Write_loop:
  "Write_loop (mtu ex_big) (bufWrite ex_big) ex_big_data = Done ex_big_plain"
proof -
  have m: "(0 :: int) < 2 ^ 32 - 21" by simp
  have n: "nat (2 ^ 32 - 21 :: int) = length ex_big_data" by (simp add: length_ex_big_data)
  have ne: "ex_big_data \<noteq> []" using length_ex_big_data by auto
  have l0: "0 < length ex_big_data" by (simp add: length_ex_big_data)
  have c: "chunks (length ex_big_data) ex_big_data = [ex_big_data]"
    using chunks_Cons [OF l0 ne] by (simp add: chunks_Nil)
  show ?thesis
    using Write_loop_chunks [OF m, of "[]" ex_big_data]
    by (simp only: ex_big_fields n c) (simp add: data_frames_def ex_big_frame)
qed

lemma ex_big_seal:
  "SealData demo_cipher demo_initiator ex_big_plain
   = Done (Inr ex_big_wire, demo_initiator\<lparr>cs1 := Some 1\<rparr>)"
  by (simp add: SealData_def EncryptData_def demo_cipher_def demo_Encrypt_def
      demo_initiator_def tag_of_def PutUint32_def length_ex_big_plain ex_big_wire_def)

lemma flush_data_all:
  assumes "int (length (bufWrite c)) \<le> m"
    and "SealData A (noise c) (bufWrite c) = Done (Inr sealed, nh)"
    and "WriteRaw_script (transport c) = None # rs"
  shows "flush_data A now m c
         = Done (FCont (c\<lparr>bufWrite := [], noise := nh,
                  transport := (transport c)
                    \<lparr>WriteRaw_script := rs,
                     WriteRaw_log := WriteRaw_log (transport c) @ [(sealed, None)]\<rparr>,
                  lastActive := now\<rparr>))"
  using assms
  by (simp add: flush_data_def Let_def min_absorb1 Next_def run_bind_def WriteRaw_def)

lemma ex_big_flush:
  "flush demo_cipher 1 (ex_big\<lparr>bufWrite := ex_big_plain\<rparr>) = Done (None, ex_big_sent)"
proof -
  let ?c = "ex_big\<lparr>bufWrite := ex_big_plain\<rparr>"
  let ?m = "MaxRawSize (transport ?c) - NoiseOverhead"
  have l: "int (length (bufWrite ?c)) \<le> ?m"
    by (simp add: length_ex_big_plain ex_big_fields NoiseOverhead_def)
  have sd: "SealData demo_cipher (noise ?c) (bufWrite ?c)
            = Done (Inr ex_big_wire, demo_initiator\<lparr>cs1 := Some 1\<rparr>)"
    by (simp add: ex_big_fields ex_big_seal)
  have ws: "WriteRaw_script (transport ?c) = None # []" by (simp add: ex_big_fields)
  note d = flush_data_all [OF l sd ws, of 1]
  have ne: "length (bufWrite ?c) \<noteq> 0" by (simp add: length_ex_big_plain)
  have rt: "rotator (transport ?c) = None" by (simp add: ex_big_fields)
  have e: "?c\<lparr>bufWrite := [], noise := demo_initiator\<lparr>cs1 := Some 1\<rparr>,
              transport := (transport ?c)
                \<lparr>WriteRaw_script := [],
                 WriteRaw_log := WriteRaw_log (transport ?c) @ [(ex_big_wire, None)]\<rparr>,
              lastActive := 1\<rparr> = ex_big_sent"
    by (simp add: ex_big_sent_def ex_big_fields)
  have s1: "flush_step demo_cipher 1 ?c = Done (FCont ex_big_sent)"
    unfolding flush_step_def Let_def using ne rt d by (simp only: e) simp
  have b: "bufWrite ex_big_sent = []" by (simp add: ex_big_sent_def ex_big_fields)
  have s2: "flush_step demo_cipher 1 ex_big_sent = Done (FStop None ex_big_sent)"
    by (simp add: flush_step_def b)
  show ?thesis
    by (simp add: flush.simps [of demo_cipher 1 ?c] s1 flush.simps [of demo_cipher 1 ex_big_sent] s2)
qed

lemma ex_big_Write:
  "Write demo_cipher 1 ex_big ex_big_data = Done ((2 ^ 32 - 21, None), ex_big_sent)"
  by (simp add: Write_def ex_big_Write_loop run_bind_def ex_big_flush ex_big_fields(3-5)
      deadline_passed_def length_ex_big_data)

lemma ex_big_peer_fields:
  "bufRead ex_big_peer = []" "bufNoise ex_big_peer = []" "readRemain ex_big_peer = 0"
  "\<not> closed ex_big_peer" "\<not> closedRead ex_big_peer" "readDeadline ex_big_peer = None"
  "ReadRaw_script (transport ex_big_peer) = [RawStream ex_big_wire (Some EOF)]"
  "noise ex_big_peer = demo_responder"
  by (simp_all add: ex_big_peer_def newConn_def ex_transport_def)

lemma ex_big_unseal:
  "UnsealData demo_cipher demo_responder ex_big_wire
   = Done ((None, None, Some (ErrCipher 0)), demo_responder)"
  by (simp add: UnsealData_def DecryptData_def demo_cipher_def demo_Decrypt_def
      demo_responder_def ex_big_wire_def length_ex_big_plain)

lemma ex_big_Read:
  "\<exists>c'. Read demo_cipher 1 ex_big_peer 4 = Done (([], Some (ErrCipher 0)), c')"
proof -
  let ?t = "(transport ex_big_peer)\<lparr>ReadRaw_script := []\<rparr>"
  let ?c2 = "ex_big_peer\<lparr>transport := ?t, bufNoise := ex_big_wire\<rparr>"
  have u: "UnsealData demo_cipher (noise ?c2) (bufNoise ?c2)
           = Done ((None, None, Some (ErrCipher 0)), demo_responder)"
    by (simp add: ex_big_peer_fields ex_big_unseal)
  have us: "unseal_step demo_cipher ?c2 = Done (UStop (Some (ErrCipher 0)) (?c2\<lparr>noise := demo_responder\<rparr>))"
    by (simp add: unseal_step_eq [OF u])
  have ul: "unseal_loop demo_cipher ?c2 = Done (Some (ErrCipher 0), ?c2\<lparr>noise := demo_responder\<rparr>)"
    by (simp add: unseal_loop.simps [of demo_cipher ?c2] us)
  have f: "Read_fetch demo_cipher 1 ex_big_peer
           = Done (RStop [] (Some (ErrCipher 0)) (?c2\<lparr>noise := demo_responder\<rparr>))"
    using ul by (simp add: Read_fetch_def ReadRaw_def ex_big_peer_fields run_bind_def Let_def)
  have st: "Read_step demo_cipher 1 ex_big_peer 4 = Read_fetch demo_cipher 1 ex_big_peer"
    by (simp add: Read_step_def ex_big_peer_fields deadline_passed_def FrameHeaderSize_def)
  show ?thesis
    by (simp add: Read.simps [of demo_cipher 1 ex_big_peer 4] st f)
qed

text \<open>
  Without the bound on \<open>MaxRawSize\<close> the claim fails.  With \<open>MaxRawSize = 2 ^ 32 + 4\<close> a
  \<open>Write\<close> of \<open>2 ^ 32 - 21\<close> bytes succeeds and puts one chunk on the wire whose
  ciphertext has \<open>2 ^ 32\<close> bytes, so that its length prefix is 0; the peer, given exactly
  these bytes, hands an empty ciphertext to the cipher, and its first \<open>Read\<close> returns the
  decryption error: no byte of the write is ever returned.
\<close>

theorem ordered_delivery_counterexample:
  "aead_sync demo_cipher (=) \<and> session_pair (=) (noise ex_big) (noise ex_big_peer)
   \<and> bufWrite ex_big = []
   \<and> mtu ex_big = MaxRawSize (transport ex_big) - NoiseOverhead - FrameHeaderSize
   \<and> Writes demo_cipher ex_big [(1, ex_big_data)] = Done ([(2 ^ 32 - 21, None)], ex_big_sent)
   \<and> bufRead ex_big_peer = [] \<and> bufNoise ex_big_peer = [] \<and> readRemain ex_big_peer = 0
   \<and> \<not> closed ex_big_peer \<and> \<not> closedRead ex_big_peer \<and> readDeadline ex_big_peer = None
   \<and> list_all raw_ok (ReadRaw_script (transport ex_big_peer))
   \<and> concat (map raw_bytes (ReadRaw_script (transport ex_big_peer))) = wire ex_big ex_big_sent
   \<and> length ex_big_data = 2 ^ 32 - 21
   \<and> (\<exists>c'. Read demo_cipher 1 ex_big_peer 4 = Done (([], Some (ErrCipher 0)), c'))
   \<and> (\<forall>calls. Reads demo_cipher ex_big_peer ((1, 4) # calls) = [])"
proof -
  have h2: "session_pair (=) (noise ex_big) (noise ex_big_peer)"
    using session_pair_demo by (simp add: ex_big_fields ex_big_peer_fields)
  have h4: "mtu ex_big = MaxRawSize (transport ex_big) - NoiseOverhead - FrameHeaderSize"
    by (simp add: ex_big_fields NoiseOverhead_def FrameHeaderSize_def)
  have h5: "Writes demo_cipher ex_big [(1, ex_big_data)]
            = Done ([(2 ^ 32 - 21, None)], ex_big_sent)"
    by (simp add: ex_big_Write run_bind_def)
  have h12: "list_all raw_ok (ReadRaw_script (transport ex_big_peer))"
    by (simp add: ex_big_peer_fields)
  have h13: "concat (map raw_bytes (ReadRaw_script (transport ex_big_peer)))
             = wire ex_big ex_big_sent"
    by (simp add: ex_big_peer_fields wire_def ex_big_fields ex_big_sent_def)
  from ex_big_Read obtain c' where
    r: "Read demo_cipher 1 ex_big_peer 4 = Done (([], Some (ErrCipher 0)), c')" ..
  have h16: "\<forall>calls. Reads demo_cipher ex_big_peer ((1, 4) # calls) = []"
    by (simp add: r)
  show ?thesis
    by (intro conjI aead_sync_demo h2 ex_big_fields(2) h4 h5 ex_big_peer_fields(1-6) h12 h13
        length_ex_big_data ex_big_Read h16)
qed

section \<open>Half-close: reads go on\<close>

lemma recv_cs_nnorm: "recv_cs (nnorm nh) = recv_cs nh"
  by (simp add: recv_cs_def nnorm_def)

lemma ReadRaw_script_tnorm: "ReadRaw_script (tnorm t) = ReadRaw_script t"
  by (simp add: tnorm_def)

text \<open>The state of the receiving side is a matter of the read side alone.\<close>

lemma recv_inv_read_side:
  assumes "read_side c' = read_side c"
  shows "recv_inv A c' Y = recv_inv A c Y"
proof -
  have "bufRead (read_side c') = bufRead (read_side c)"
    "bufNoise (read_side c') = bufNoise (read_side c)"
    "closed (read_side c') = closed (read_side c)"
    "closedRead (read_side c') = closedRead (read_side c)"
    "readRemain (read_side c') = readRemain (read_side c)"
    "readDeadline (read_side c') = readDeadline (read_side c)"
    "recv_cs (noise (read_side c')) = recv_cs (noise (read_side c))"
    "ReadRaw_script (transport (read_side c')) = ReadRaw_script (transport (read_side c))"
    by (simp_all only: assms)
  then have e: "bufRead c' = bufRead c" "bufNoise c' = bufNoise c" "closed c' = closed c"
    "closedRead c' = closedRead c" "readRemain c' = readRemain c"
    "readDeadline c' = readDeadline c" "recv_cs (noise c') = recv_cs (noise c)"
    "ReadRaw_script (transport c') = ReadRaw_script (transport c)"
    by (simp_all only: read_side_fields recv_cs_nnorm ReadRaw_script_tnorm)
  show ?thesis by (simp only: recv_inv_def e)
qed

text \<open>
  The receiving end of a fresh pair of connections, once the peer has written and the
  driver holds the bytes for it, has the bytes written still to deliver.
\<close>

lemma delivery_recv_inv:
  assumes "aead_sync A R" and "session_pair R (noise a) (noise b)"
    and "bufWrite a = []"
    and "mtu a = MaxRawSize (transport a) - NoiseOverhead - FrameHeaderSize"
    and "MaxRawSize (transport a) < 2 ^ 32 + 4"
    and "Writes A a ws = Done (ress, a')" and "list_all (\<lambda>res. snd res = None) ress"
    and "bufRead b = []" and "bufNoise b = []" and "readRemain b = 0"
    and "\<not> closed b" and "\<not> closedRead b" and "readDeadline b = None"
    and "list_all raw_ok (ReadRaw_script (transport b))"
    and "concat (map raw_bytes (ReadRaw_script (transport b))) = wire a a'"
  shows "recv_inv A b (concat (map snd ws))"
proof -
  from assms(2) obtain s r where
    cs: "send_cs (noise a) = Some s" "R s r" and rc: "recv_cs (noise b) = Some r"
    by (auto simp: session_pair_def)
  from Writes_frames [OF assms(1,6,7) cs assms(3,4,5)] obtain new fs r' where
    lg: "WriteRaw_log (transport a') = WriteRaw_log (transport a) @ new" and
    op: "opens A r (concat (map fst new)) (map enc_frame fs) r'" and
    ok: "list_all frame_ok fs" and dp: "data_payloads fs = concat (map snd ws)"
    by blast
  have w: "wire a a' = concat (map fst new)" by (simp add: wire_def lg)
  show ?thesis
  proof (rule recv_invI [where r = r and pcs = "map enc_frame fs" and r_end = r' and fs = fs])
    show "opens A r (bufNoise b @ concat (map raw_bytes (ReadRaw_script (transport b))))
            (map enc_frame fs) r'"
      using op by (simp add: assms(9,15) w)
    show "short_buf (bufNoise b)" by (simp add: assms(9) short_buf_def)
  qed (use assms rc ok dp in simp_all)
qed






text \<open>
  The same in terms of the two ends: what the peer has written is delivered to the end
  that has half-closed.
\<close>

lemma half_close_delivery:
  assumes "aead_sync A R" and "session_pair R (noise a) (noise b)"
    and "bufWrite a = []"
    and "mtu a = MaxRawSize (transport a) - NoiseOverhead - FrameHeaderSize"
    and "MaxRawSize (transport a) < 2 ^ 32 + 4"
    and "Writes A a ws = Done (ress, a')" and "list_all (\<lambda>res. snd res = None) ress"
    and "bufRead b = []" and "bufNoise b = []" and "readRemain b = 0"
    and "\<not> closed b" and "\<not> closedRead b" and "readDeadline b = None"
    and "list_all raw_ok (ReadRaw_script (transport b))"
    and "concat (map raw_bytes (ReadRaw_script (transport b))) = wire a a'"
    and "list_all (\<lambda>call. 0 < snd call) calls"
    and "CloseWrite A now b = Done (r, b')"
  shows "\<exists>more. concat (map snd ws) = Reads A b' calls @ more
           \<and> (length (concat (map snd ws)) \<le> length calls \<longrightarrow> more = [])"
proof -
  note inv = delivery_recv_inv [OF assms(1-15)]
  from CloseWrite_spec [OF assms(17)] have rs: "read_side b' = read_side b" by simp
  from inv have "recv_inv A b' (concat (map snd ws))"
    by (simp only: recv_inv_read_side [OF rs])
  from Reads_inv [OF this assms(16)] show ?thesis .
qed

end
